theory Spec2Isabelle
  imports Main "HOL-Library.Word"
begin

unbundle bit_operations_syntax

section \<open>Data model of puzzle.c\<close>

type_synonym u32 = "32 word"

text \<open>The macros \<^verbatim>\<open>NUM_PIECES\<close>, \<^verbatim>\<open>W\<close> and \<^verbatim>\<open>H\<close>.\<close>

definition NUM_PIECES :: u32 where "NUM_PIECES = 7"
definition W :: u32 where "W = 4"
definition H :: u32 where "H = 7"

text \<open>
  \<^verbatim>\<open>struct piece_def { const char *def; uint8_t h, w; }\<close>.  The fields carry the
  prefix \<open>pd_\<close> (and those of \<^verbatim>\<open>struct piece_orientations\<close> the prefix \<open>po_\<close>),
  since both structs have fields \<^verbatim>\<open>w\<close> and \<^verbatim>\<open>h\<close>.
\<close>

record piece_def =
  pd_def :: string
  pd_h :: "8 word"
  pd_w :: "8 word"

text \<open>The table \<^verbatim>\<open>piece_definition[NUM_PIECES]\<close>; adjacent C string literals are
  concatenated, so each grid is one row-major string.\<close>

definition piece_definition :: "piece_def list" where
  "piece_definition =
    [\<lparr>pd_def = ''####'', pd_h = 1, pd_w = 4\<rparr>,
     \<lparr>pd_def = ''####'', pd_h = 2, pd_w = 2\<rparr>,
     \<lparr>pd_def = ''##  ##'', pd_h = 2, pd_w = 3\<rparr>,
     \<lparr>pd_def = '' #### '', pd_h = 2, pd_w = 3\<rparr>,
     \<lparr>pd_def = ''####  '', pd_h = 2, pd_w = 3\<rparr>,
     \<lparr>pd_def = ''###  #'', pd_h = 2, pd_w = 3\<rparr>,
     \<lparr>pd_def = '' # ###'', pd_h = 2, pd_w = 3\<rparr>]"

text \<open>
  \<^verbatim>\<open>struct piece_orientations { uint32_t n; uint32_t masks[8]; uint32_t w[8];
  uint32_t h[8]; }\<close>: the three arrays are lists (of length 8 in every well-formed value).
\<close>

record piece_orientations =
  po_n :: u32
  po_masks :: "u32 list"
  po_w :: "u32 list"
  po_h :: "u32 list"

text \<open>\<^verbatim>\<open>struct placement { uint32_t piece_mask; }\<close>\<close>

record placement =
  piece_mask :: u32

text \<open>
  The counting loops.  \<open>range_lt n\<close> lists the values a \<^verbatim>\<open>uint32_t\<close> counter takes in
  \<^verbatim>\<open>for (c = 0; c < n; ++c)\<close>, \<open>range_le m\<close> those of \<^verbatim>\<open>for (c = 0; c <= m; ++c)\<close>
  (which ends in C only when \<open>m < 2^32 - 1\<close>), and \<open>range_from a b\<close> those of
  \<^verbatim>\<open>for (c = a; c < b; ++c)\<close>.
\<close>

definition range_lt :: "u32 \<Rightarrow> u32 list" where
  "range_lt n = map of_nat [0..<unat n]"

definition range_le :: "u32 \<Rightarrow> u32 list" where
  "range_le m = map of_nat [0..<Suc (unat m)]"

definition range_from :: "u32 \<Rightarrow> u32 \<Rightarrow> u32 list" where
  "range_from a b = map of_nat [unat a..<unat b]"

text \<open>\<^verbatim>\<open>1 << k\<close> stored into a \<^verbatim>\<open>uint32_t\<close>.\<close>

definition bit_at :: "u32 \<Rightarrow> u32" where
  "bit_at k = push_bit (unat k) 1"

section \<open>Orientation generator: \<^verbatim>\<open>calc_pieces_available\<close>\<close>

text \<open>Lines 143-149: the mask of a definition grid.\<close>

definition def_mask :: "string \<Rightarrow> u32 \<Rightarrow> u32 \<Rightarrow> u32" where
  "def_mask d piece_w piece_h =
     fold (\<lambda>y. fold (\<lambda>x msk.
             if d ! unat (x + piece_w * y) \<noteq> CHR '' ''
             then msk OR bit_at (x + W * y) else msk)
           (range_lt piece_w))
       (range_lt piece_h) 0"

text \<open>Lines 159-164: is \<open>(mask, piece_w, piece_h)\<close> among the first \<open>idx\<close> recorded
  orientations?\<close>

definition redundant_orientation ::
  "piece_orientations \<Rightarrow> u32 \<Rightarrow> u32 \<Rightarrow> u32 \<Rightarrow> u32 \<Rightarrow> bool" where
  "redundant_orientation a idx msk piece_w piece_h =
     list_ex (\<lambda>l. po_w a ! unat l = piece_w \<and>
                  po_h a ! unat l = piece_h \<and>
                  po_masks a ! unat l = msk)
       (range_lt idx)"

text \<open>Lines 176-187: one pass of the mirror loop body, and the loop.\<close>

definition horiz_mask :: u32 where
  "horiz_mask = push_bit (unat W) 1 - 1"

definition mirror_step :: "u32 \<Rightarrow> u32 \<Rightarrow> u32 \<Rightarrow> u32" where
  "mirror_step piece_h l msk =
     (let bot_shift = W * l;
          top_shift = W * ((piece_h - 1) - l);
          bot_mask = push_bit (unat bot_shift) horiz_mask;
          top_mask = push_bit (unat top_shift) horiz_mask;
          bot = drop_bit (unat bot_shift) (msk AND bot_mask);
          top = drop_bit (unat top_shift) (msk AND top_mask)
      in (msk AND NOT (bot_mask OR top_mask)) OR
         push_bit (unat bot_shift) top OR
         push_bit (unat top_shift) bot)"

definition mirror :: "u32 \<Rightarrow> u32 \<Rightarrow> u32" where
  "mirror piece_h msk = fold (mirror_step piece_h) (range_lt (piece_h div 2)) msk"

text \<open>Lines 196-207: the rotated mask.\<close>

definition rotate :: "u32 \<Rightarrow> u32 \<Rightarrow> u32 \<Rightarrow> u32" where
  "rotate msk piece_w piece_h =
     fold (\<lambda>y. fold (\<lambda>x rotated_mask.
             if msk AND bit_at (W * y + x) \<noteq> 0
             then (let rotated_x = (piece_h - 1) - y; rotated_y = x
                   in rotated_mask OR bit_at (W * rotated_y + rotated_x))
             else rotated_mask)
           (range_lt piece_w))
       (range_lt piece_h) 0"

text \<open>
  The state of the generation of one piece: the entry \<^verbatim>\<open>avail[i]\<close>, \<^verbatim>\<open>idx\<close>,
  \<^verbatim>\<open>mask\<close>, \<^verbatim>\<open>piece_w\<close> and \<^verbatim>\<open>piece_h\<close>.
\<close>

type_synonym gen_state = "piece_orientations \<times> u32 \<times> u32 \<times> u32 \<times> u32"

text \<open>Lines 157-193: the body of the loop over \<open>k\<close>.\<close>

definition k_body :: "gen_state \<Rightarrow> gen_state" where
  "k_body s =
     (case s of (a, idx, msk, piece_w, piece_h) \<Rightarrow>
        let (a', idx') =
              (if redundant_orientation a idx msk piece_w piece_h then (a, idx)
               else (a\<lparr>po_masks := (po_masks a)[unat idx := msk],
                        po_w := (po_w a)[unat idx := piece_w],
                        po_h := (po_h a)[unat idx := piece_h]\<rparr>, idx + 1))
        in (a', idx', mirror piece_h msk, piece_w, piece_h))"

text \<open>Lines 153-211: the body of the loop over \<open>j\<close>.\<close>

definition j_body :: "gen_state \<Rightarrow> gen_state" where
  "j_body s =
     (case fold (\<lambda>k. k_body) (range_lt 2) s of (a, idx, msk, piece_w, piece_h) \<Rightarrow>
        (a, idx, rotate msk piece_w piece_h, piece_h, piece_w))"

text \<open>Lines 134-218: the body of the loop over \<open>i\<close>, on the entry \<^verbatim>\<open>avail[i]\<close>.\<close>

definition calc_piece :: "piece_def \<Rightarrow> piece_orientations \<Rightarrow> piece_orientations" where
  "calc_piece d a =
     (let piece_w = ucast (pd_w d); piece_h = ucast (pd_h d);
          msk = def_mask (pd_def d) piece_w piece_h
      in case fold (\<lambda>j. j_body) (range_lt 4) (a, 0, msk, piece_w, piece_h) of
           (a', idx, _) \<Rightarrow> a'\<lparr>po_n := idx\<rparr>)"

definition calc_pieces_available :: "piece_orientations list \<Rightarrow> piece_orientations list" where
  "calc_pieces_available avail =
     fold (\<lambda>i avail. avail[unat i := calc_piece (piece_definition ! unat i) (avail ! unat i)])
       (range_lt NUM_PIECES) avail"


section \<open>The state of the process\<close>

text \<open>
  A call of \<^verbatim>\<open>recurse\<close>: its arguments \<^verbatim>\<open>iter\<close> and \<^verbatim>\<open>state\<close> and the contents, at the
  moment of the call, of the two arrays its pointer arguments refer to.
\<close>

record call =
  c_iter :: u32
  c_state :: u32
  c_pieces_available :: "piece_orientations list"
  c_solution :: "placement list"

text \<open>
  \<^verbatim>\<open>recurse\<close> receives pointers to the two arrays of \<^verbatim>\<open>main\<close> and updates them in place;
  \<^verbatim>\<open>print_solution\<close> writes to the standard streams and may call \<^verbatim>\<open>exit(1)\<close>.  The
  state that is passed along holds the two arrays, the text written to the two streams,
  the exit status (\<open>None\<close> while the process runs) and, as a history variable, the
  calls of \<^verbatim>\<open>recurse\<close> made so far, in order.  Once \<open>exited\<close> is set no statement
  runs any more, so every step below leaves such a state as it is.
\<close>

record world =
  pieces_available :: "piece_orientations list"
  solution :: "placement list"
  calls :: "call list"
  stdout :: string
  stderr :: string
  exited :: "nat option"

definition printf_out :: "string \<Rightarrow> world \<Rightarrow> world" where
  "printf_out t s = (if exited s \<noteq> None then s else s\<lparr>stdout := stdout s @ t\<rparr>)"

section \<open>Reporting: \<^verbatim>\<open>print_solution\<close> and \<^verbatim>\<open>found_solution\<close>\<close>

text \<open>\<^verbatim>\<open>static const char patterns[NUM_PIECES+1] = ".%=#@$*"\<close> (with its final NUL).\<close>

definition patterns :: string where
  "patterns = ''.%=#@$*'' @ [CHR 0x00]"

text \<open>Lines 94-102: the body of the loop over \<open>i\<close>, on \<^verbatim>\<open>found\<close> and the process.\<close>

definition cell_body :: "u32 \<Rightarrow> u32 \<Rightarrow> u32 \<Rightarrow> u32 \<times> world \<Rightarrow> u32 \<times> world" where
  "cell_body x y i fs =
     (case fs of (found, s) \<Rightarrow>
        if exited s \<noteq> None then (found, s)
        else
          let msk = piece_mask (solution s ! unat i) in
          if msk AND bit_at (x + W * y) \<noteq> 0 then
            (if found \<noteq> 0
             then (found, s\<lparr>stderr := stderr s @ ''Internal error: overlapping pieces!'' @ [CHR 0x0A],
                             exited := Some 1\<rparr>)
             else (1, printf_out [patterns ! unat i] s))
          else (found, s))"

text \<open>Lines 92-105: the body of the loop over \<open>x\<close>.\<close>

definition print_cell :: "u32 \<Rightarrow> u32 \<Rightarrow> u32 \<Rightarrow> world \<Rightarrow> world" where
  "print_cell sofar y x s =
     (case fold (cell_body x y) (range_lt sofar) (0, s) of
        (found, s') \<Rightarrow> if found = 0 then printf_out '' '' s' else s')"

text \<open>Lines 91-107: the body of the loop over \<open>y\<close>.\<close>

definition print_row :: "u32 \<Rightarrow> u32 \<Rightarrow> world \<Rightarrow> world" where
  "print_row sofar y s = printf_out [CHR 0x0A] (fold (print_cell sofar y) (range_lt W) s)"

text \<open>Lines 90-109.\<close>

definition print_solution :: "u32 \<Rightarrow> world \<Rightarrow> world" where
  "print_solution sofar s =
     printf_out (''--------'' @ [CHR 0x0A]) (fold (print_row sofar) (range_lt H) s)"

definition found_solution :: "world \<Rightarrow> world" where
  "found_solution s =
     print_solution NUM_PIECES (printf_out (''Hey, found a solution!'' @ [CHR 0x0A]) s)"

section \<open>Placement search: \<^verbatim>\<open>recurse\<close>\<close>

text \<open>
  Lines 256-264, the body of the loop over \<open>x\<close>.  \<open>rec\<close> stands for the recursive call
  \<^verbatim>\<open>recurse(iter+1, new_state, pieces_available, solution)\<close>.
\<close>

definition place ::
  "(u32 \<Rightarrow> world \<Rightarrow> world) \<Rightarrow> u32 \<Rightarrow> u32 \<Rightarrow> u32 \<Rightarrow> u32 \<Rightarrow> u32 \<Rightarrow> world \<Rightarrow> world" where
  "place rec iter state msk y x s =
     (if exited s \<noteq> None then s
      else
        let pm = push_bit (unat (x + W * y)) msk in
        if pm AND state \<noteq> 0 then s
        else
          let new_state = state OR pm
          in rec new_state (s\<lparr>solution := (solution s)[unat iter := \<lparr>piece_mask = pm\<rparr>]\<rparr>))"

text \<open>Lines 255-265, the loop over \<open>x\<close> for one \<open>y\<close>.\<close>

definition x_loop ::
  "(u32 \<Rightarrow> world \<Rightarrow> world) \<Rightarrow> u32 \<Rightarrow> u32 \<Rightarrow> u32 \<Rightarrow> u32 \<Rightarrow> u32 \<Rightarrow> world \<Rightarrow> world" where
  "x_loop rec iter state msk x_max y s = fold (place rec iter state msk y) (range_le x_max) s"

text \<open>Lines 251-266, the body of the loop over the orientations \<open>j\<close> of \<open>p\<close>.\<close>

definition orientation_body ::
  "(u32 \<Rightarrow> world \<Rightarrow> world) \<Rightarrow> u32 \<Rightarrow> u32 \<Rightarrow> piece_orientations \<Rightarrow> u32 \<Rightarrow> world \<Rightarrow> world" where
  "orientation_body rec iter state p j s =
     (let msk = po_masks p ! unat j;
          x_max = W - po_w p ! unat j;
          y_max = H - po_h p ! unat j
      in fold (x_loop rec iter state msk x_max) (range_le y_max) s)"

text \<open>
  Line 246, \<^verbatim>\<open>pieces_available[i] = pieces_available[0]\<close>, and line 270,
  \<^verbatim>\<open>pieces_available[i] = p\<close>.
\<close>

definition take_slot :: "u32 \<Rightarrow> world \<Rightarrow> world" where
  "take_slot i s =
     s\<lparr>pieces_available := (pieces_available s)[unat i := pieces_available s ! 0]\<rparr>"

definition restore_slot :: "u32 \<Rightarrow> piece_orientations \<Rightarrow> world \<Rightarrow> world" where
  "restore_slot i p s =
     (if exited s \<noteq> None then s
      else s\<lparr>pieces_available := (pieces_available s)[unat i := p]\<rparr>)"

text \<open>Lines 242-270, the body of the loop over the slots \<open>i\<close>.\<close>

definition slot_body ::
  "(u32 \<Rightarrow> world \<Rightarrow> world) \<Rightarrow> u32 \<Rightarrow> u32 \<Rightarrow> u32 \<Rightarrow> world \<Rightarrow> world" where
  "slot_body rec iter state i s =
     (if exited s \<noteq> None then s
      else
        let p = pieces_available s ! unat i;
            num_orientations = po_n p
        in restore_slot i p
             (fold (orientation_body rec iter state p) (range_lt num_orientations)
                (take_slot i s)))"

lemma slot_body_cong [fundef_cong]:
  assumes "\<And>st s'. rec st s' = rec' st s'"
    and "iter = iter'" and "state = state'" and "i = i'" and "s = t"
  shows "slot_body rec iter state i s = slot_body rec' iter' state' i' t"
proof -
  have "rec = rec'" using assms(1) by (intro ext)
  then show ?thesis using assms(2-) by simp
qed

definition log_call :: "u32 \<Rightarrow> u32 \<Rightarrow> world \<Rightarrow> world" where
  "log_call iter state s =
     s\<lparr>calls := calls s @ [\<lparr>c_iter = iter, c_state = state,
                             c_pieces_available = pieces_available s,
                             c_solution = solution s\<rparr>]\<rparr>"

lemma unat_lt32: "unat (b::u32) < 4294967296"
proof -
  have "unat b < 2 ^ LENGTH(32)" by (rule unsigned_less)
  then show ?thesis by simp
qed

lemma unat_plus1: "(a::u32) < b \<Longrightarrow> unat (a + 1) = Suc (unat a)"
proof -
  assume "a < b"
  then have "unat a < unat b" by (simp add: word_less_nat_alt)
  moreover have "unat b < 2 ^ 32" using unat_lt32 [of b] by simp
  ultimately have "unat a + unat (1::u32) < 2 ^ LENGTH(32)" by simp
  then have "unat (a + 1) = unat a + unat (1::u32)" by (simp only: unat_add_lem)
  then show ?thesis by simp
qed

lemma range_from_iff: "i \<in> set (range_from a b) \<longleftrightarrow> a \<le> i \<and> i < b"
proof
  assume "i \<in> set (range_from a b)"
  then obtain k where k: "i = of_nat k" "unat a \<le> k" "k < unat b"
    by (auto simp: range_from_def)
  have "k < 2 ^ 32" using k(3) unat_lt32 [of b] by simp
  then have "unat i = k" using k(1) by (simp add: unat_of_nat)
  then show "a \<le> i \<and> i < b" using k by (simp add: word_le_nat_alt word_less_nat_alt)
next
  assume "a \<le> i \<and> i < b"
  then have "unat a \<le> unat i" "unat i < unat b"
    by (simp_all add: word_le_nat_alt word_less_nat_alt)
  then have "unat i \<in> set [unat a..<unat b]" by simp
  then have "of_nat (unat i) \<in> of_nat ` set [unat a..<unat b]" by (rule imageI)
  then have "of_nat (unat i) \<in> set (range_from a b)"
    by (simp only: range_from_def set_map)
  then show "i \<in> set (range_from a b)" by simp
qed

function recurse :: "u32 \<Rightarrow> u32 \<Rightarrow> world \<Rightarrow> world" where
  "recurse iter state s =
     (if iter = NUM_PIECES then found_solution (log_call iter state s)
      else fold (slot_body (\<lambda>new_state s'. recurse (iter + 1) new_state s') iter state)
             (range_from iter NUM_PIECES) (log_call iter state s))"
  by pat_completeness auto
termination
proof (relation "measure (\<lambda>(iter, state, s). 7 - unat iter)", goal_cases)
  case 1
  show ?case by simp
next
  case (2 iter state s i new_state s')
  then have "iter < NUM_PIECES" by (auto simp: range_from_iff)
  then have "unat (iter + 1) = Suc (unat iter)" "unat iter < 7"
    using unat_plus1 [of iter NUM_PIECES]
    by (simp_all add: NUM_PIECES_def word_less_nat_alt)
  then show ?case by simp
qed

text \<open>
  \<^verbatim>\<open>main\<close>.  Its two arrays are not initialised: their first contents are the
  parameters \<open>avail0\<close> and \<open>solution0\<close>.
\<close>

definition main :: "piece_orientations list \<Rightarrow> placement list \<Rightarrow> world" where
  "main avail0 solution0 =
     (let s = recurse 0 0
                \<lparr>pieces_available = calc_pieces_available avail0, solution = solution0,
                 calls = [], stdout = [], stderr = [], exited = None\<rparr>
      in if exited s \<noteq> None then s else s\<lparr>exited := Some 0\<rparr>)"

text \<open>The arguments of the calls of \<^verbatim>\<open>found_solution\<close>: the solutions reported.\<close>

definition reported :: "world \<Rightarrow> placement list list" where
  "reported s = map c_solution (filter (\<lambda>c. c_iter c = NUM_PIECES) (calls s))"

section \<open>Notions used to state the properties\<close>

text \<open>
  The orientations of an orientation set that the search reads (the first \<open>po_n\<close>
  entries of its arrays), the masks the loops over \<open>y\<close> and \<open>x\<close> try for one
  orientation, and the masks tried for an orientation set: its board shifts.
\<close>

definition orientations :: "piece_orientations \<Rightarrow> (u32 \<times> u32 \<times> u32) list" where
  "orientations p =
     map (\<lambda>j. (po_masks p ! unat j, po_w p ! unat j, po_h p ! unat j)) (range_lt (po_n p))"

definition shifts :: "u32 \<times> u32 \<times> u32 \<Rightarrow> u32 list" where
  "shifts ori =
     (case ori of (msk, w, h) \<Rightarrow>
        concat (map (\<lambda>y. map (\<lambda>x. push_bit (unat (x + W * y)) msk) (range_le (W - w)))
                  (range_le (H - h))))"

definition placements :: "piece_orientations \<Rightarrow> u32 list" where
  "placements p = concat (map shifts (orientations p))"

text \<open>Lines 260-264 for a given placement mask.\<close>

definition try_mask :: "(u32 \<Rightarrow> world \<Rightarrow> world) \<Rightarrow> u32 \<Rightarrow> u32 \<Rightarrow> u32 \<Rightarrow> world \<Rightarrow> world" where
  "try_mask rec iter state pm s =
     (if exited s \<noteq> None \<or> pm AND state \<noteq> 0 then s
      else rec (state OR pm) (s\<lparr>solution := (solution s)[unat iter := \<lparr>piece_mask = pm\<rparr>]\<rparr>))"

text \<open>
  What \<^verbatim>\<open>print_solution\<close> tests.  \<open>covers sol x y i\<close> is the test of line 95 for the
  placement \<open>i\<close> and the cell \<open>(x, y)\<close>; the cell is overlapped when two of the first
  \<open>sofar\<close> placements cover it, and a solution is overlapping when a cell of the board is.
\<close>

definition covers :: "placement list \<Rightarrow> u32 \<Rightarrow> u32 \<Rightarrow> u32 \<Rightarrow> bool" where
  "covers sol x y i \<longleftrightarrow> piece_mask (sol ! unat i) AND bit_at (x + W * y) \<noteq> 0"

definition overlap_at :: "placement list \<Rightarrow> u32 \<Rightarrow> u32 \<Rightarrow> u32 \<Rightarrow> bool" where
  "overlap_at sol sofar y x \<longleftrightarrow> 2 \<le> length (filter (covers sol x y) (range_lt sofar))"

definition overlap_in_row :: "placement list \<Rightarrow> u32 \<Rightarrow> u32 \<Rightarrow> bool" where
  "overlap_in_row sol sofar y \<longleftrightarrow> list_ex (overlap_at sol sofar y) (range_lt W)"

definition overlapping :: "placement list \<Rightarrow> u32 \<Rightarrow> bool" where
  "overlapping sol sofar \<longleftrightarrow> list_ex (overlap_in_row sol sofar) (range_lt H)"

definition diagnostic :: string where
  "diagnostic = ''Internal error: overlapping pieces!'' @ [CHR 0x0A]"

text \<open>A call that reports an overlapping solution.\<close>

definition bad_call :: "call \<Rightarrow> bool" where
  "bad_call c \<longleftrightarrow> c_iter c = NUM_PIECES \<and> overlapping (c_solution c) NUM_PIECES"

text \<open>
  \<open>extends C k s s'\<close>: from \<open>s\<close> to \<open>s'\<close> the first \<open>k\<close> entries of \<^verbatim>\<open>solution\<close>
  are kept, \<^verbatim>\<open>pieces_available\<close> is the same unless the process has exited, the
  calls of \<^verbatim>\<open>recurse\<close> made in between all satisfy \<open>C\<close>, and the process has exited in
  between only if one of them reported an overlapping solution.
\<close>

definition extends :: "(call \<Rightarrow> bool) \<Rightarrow> nat \<Rightarrow> world \<Rightarrow> world \<Rightarrow> bool" where
  "extends C k s s' \<longleftrightarrow>
     length (solution s') = length (solution s) \<and>
     take k (solution s') = take k (solution s) \<and>
     (exited s' = None \<longrightarrow> exited s = None \<and> pieces_available s' = pieces_available s) \<and>
     (\<exists>new. calls s' = calls s @ new \<and> list_all C new \<and>
        (exited s = None \<longrightarrow> exited s' = None \<or> list_ex bad_call new))"

definition same_memory :: "world \<Rightarrow> world \<Rightarrow> bool" where
  "same_memory s s' \<longleftrightarrow>
     pieces_available s' = pieces_available s \<and> solution s' = solution s \<and> calls s' = calls s"

abbreviation call_inv ::
  "(u32 \<Rightarrow> u32 \<Rightarrow> piece_orientations list \<Rightarrow> placement list \<Rightarrow> bool) \<Rightarrow> call \<Rightarrow> bool" where
  "call_inv I c \<equiv> I (c_iter c) (c_state c) (c_pieces_available c) (c_solution c)"

text \<open>Initial contents of the arrays of \<^verbatim>\<open>main\<close> used in the examples: all zero.\<close>

definition zero_po :: piece_orientations where
  "zero_po = \<lparr>po_n = 0, po_masks = [0, 0, 0, 0, 0, 0, 0, 0],
               po_w = [0, 0, 0, 0, 0, 0, 0, 0], po_h = [0, 0, 0, 0, 0, 0, 0, 0]\<rparr>"

definition zero_avail :: "piece_orientations list" where
  "zero_avail = [zero_po, zero_po, zero_po, zero_po, zero_po, zero_po, zero_po]"

definition zero_solution :: "placement list" where
  "zero_solution = map (\<lambda>m. \<lparr>piece_mask = m\<rparr>) [0, 0, 0, 0, 0, 0, 0]"

text \<open>Row \<open>r\<close> of a mask: its bits \<open>4r\<close> to \<open>4r + 3\<close>.\<close>

definition row :: "nat \<Rightarrow> u32 \<Rightarrow> u32" where
  "row r m = drop_bit (4 * r) m AND 0xF"

text \<open>
  Masks.  The board is the set of bits 0 to 27.  \<open>popcount\<close> counts the bits of a mask,
  \<open>union_masks\<close> is the bitwise OR of a list of masks and \<open>disjoint_masks\<close> says that
  no two masks of a list share a bit.
\<close>

definition board :: u32 where
  "board = 0x0FFFFFFF"

definition on_board :: "u32 \<Rightarrow> bool" where
  "on_board m \<longleftrightarrow> m AND 0xF0000000 = 0"

definition popcount :: "u32 \<Rightarrow> nat" where
  "popcount m = length (filter (bit m) [0..<32])"

definition union_masks :: "u32 list \<Rightarrow> u32" where
  "union_masks ms = fold (\<lambda>m acc. acc OR m) ms 0"

fun disjoint_masks :: "u32 list \<Rightarrow> bool" where
  "disjoint_masks [] = True"
| "disjoint_masks (m # ms) = (list_all (\<lambda>m'. m AND m' = 0) ms \<and> disjoint_masks ms)"

text \<open>The placement masks recorded at the depths below \<open>k\<close>.\<close>

definition masks :: "placement list \<Rightarrow> nat \<Rightarrow> u32 list" where
  "masks sol k = map piece_mask (take k sol)"

text \<open>
  A placement mask is good when it lies on the board and has four bits; a pool is good
  when it has \<^verbatim>\<open>NUM_PIECES\<close> slots and every mask the search tries from any slot is good.
\<close>

definition good_mask :: "u32 \<Rightarrow> bool" where
  "good_mask m \<longleftrightarrow> on_board m \<and> popcount m = 4"

definition good_pool :: "piece_orientations list \<Rightarrow> bool" where
  "good_pool pool \<longleftrightarrow> length pool = 7 \<and> list_all (\<lambda>p. list_all good_mask (placements p)) pool"

text \<open>
  The invariant of the calls of \<^verbatim>\<open>recurse\<close>: the placements recorded at the depths
  below \<open>iter\<close> are good and pairwise disjoint, and \<open>state\<close> is their union.
\<close>

definition tiling :: "u32 \<Rightarrow> u32 \<Rightarrow> piece_orientations list \<Rightarrow> placement list \<Rightarrow> bool" where
  "tiling iter state pool sol \<longleftrightarrow>
     length sol = 7 \<and> unat iter \<le> 7 \<and> good_pool pool \<and>
     list_all good_mask (masks sol (unat iter)) \<and>
     disjoint_masks (masks sol (unat iter)) \<and>
     union_masks (masks sol (unat iter)) = state"

text \<open>
  The chessboard colouring of the board: \<open>checker\<close> holds the cells \<open>(x, y)\<close> with
  \<open>x + y\<close> even, \<open>dark m\<close> is the number of such cells in \<open>m\<close>.  An orientation set is
  even (odd) when every mask the search tries from it has an even (odd) number of them.
  \<open>parity_inv\<close> adds to \<open>tiling\<close> that the slots 0 to 5 hold even sets and that either
  slot 6 holds an odd set and \<open>state\<close> is even, or slot 6 holds an even set and \<open>state\<close>
  is odd.
\<close>
definition checker :: u32 where
  "checker = 0x05A5A5A5"

definition dark :: "u32 \<Rightarrow> nat" where
  "dark m = popcount (m AND checker)"

definition even_piece :: "piece_orientations \<Rightarrow> bool" where
  "even_piece p \<longleftrightarrow> list_all (\<lambda>pm. even (dark pm)) (placements p)"

definition odd_piece :: "piece_orientations \<Rightarrow> bool" where
  "odd_piece p \<longleftrightarrow> list_all (\<lambda>pm. odd (dark pm)) (placements p)"

definition parity_inv :: "u32 \<Rightarrow> u32 \<Rightarrow> piece_orientations list \<Rightarrow> placement list \<Rightarrow> bool" where
  "parity_inv iter state pool sol \<longleftrightarrow>
     tiling iter state pool sol \<and> list_all even_piece (take 6 pool) \<and>
     (if odd_piece (pool ! 6) \<and> even (dark state) then unat iter \<le> 6
      else even_piece (pool ! 6) \<and> odd (dark state))"

text \<open>Well-formed values of \<^verbatim>\<open>struct piece_orientations\<close> and of the array of \<^verbatim>\<open>main\<close>.\<close>

definition wf_po :: "piece_orientations \<Rightarrow> bool" where
  "wf_po a \<longleftrightarrow> length (po_masks a) = 8 \<and> length (po_w a) = 8 \<and> length (po_h a) = 8"

definition wf_avail :: "piece_orientations list \<Rightarrow> bool" where
  "wf_avail avail \<longleftrightarrow> length avail = 7 \<and> list_all wf_po avail"

text \<open>The calls of \<^verbatim>\<open>recurse\<close> made from state \<open>s\<close> to state \<open>s'\<close>, and the solutions
  reported in between.\<close>

definition calls_since :: "world \<Rightarrow> world \<Rightarrow> call list" where
  "calls_since s s' = drop (length (calls s)) (calls s')"

definition reported_since :: "world \<Rightarrow> world \<Rightarrow> placement list list" where
  "reported_since s s' =
     map c_solution (filter (\<lambda>c. c_iter c = NUM_PIECES) (calls_since s s'))"

text \<open>
  An example call at depth 6: rows 1 to 6 of the board are covered by six recorded
  placements, and slot 6 of the pool holds the orientations of piece 0, as it does after
  slot 6 has been chosen once.
\<close>

definition example6 :: world where
  "example6 =
     \<lparr>pieces_available =
        (calc_pieces_available zero_avail)[6 := calc_pieces_available zero_avail ! 0],
      solution = map (\<lambda>m. \<lparr>piece_mask = m\<rparr>)
        [0xF0, 0xF00, 0xF000, 0xF0000, 0xF00000, 0xF000000, 0],
      calls = [], stdout = [], stderr = [], exited = None\<rparr>"

definition example_solution :: "placement list" where
  "example_solution = map (\<lambda>m. \<lparr>piece_mask = m\<rparr>)
        [0xF0, 0xF00, 0xF000, 0xF0000, 0xF00000, 0xF000000, 0xF]"

text \<open>A state in which the placements recorded at depths 5 and 6 both cover cell (0, 0).\<close>

definition example_overlap :: world where
  "example_overlap =
     \<lparr>pieces_available = calc_pieces_available zero_avail,
      solution = map (\<lambda>m. \<lparr>piece_mask = m\<rparr>)
        [0xF0, 0xF00, 0xF000, 0xF0000, 0xF00000, 0xF, 0xF],
      calls = [], stdout = [], stderr = [], exited = None\<rparr>"

text \<open>
  The orientation sets a call of \<^verbatim>\<open>recurse\<close> offers for placement: the loop of line 241
  reads the slots from index \<open>iter\<close> on, and at each pass the array is what it was when
  the call was made, since line 270 puts back what line 246 has overwritten.
\<close>

definition offered :: "call \<Rightarrow> piece_orientations list" where
  "offered c = drop (unat (c_iter c)) (c_pieces_available c)"


section \<open>Evaluating the counting loops\<close>

declare recurse.simps [simp del]

lemma range_lt_0: "range_lt 0 = []"
  by (simp add: range_lt_def)

lemma range_lt_rec: "n \<noteq> 0 \<Longrightarrow> range_lt n = range_lt (n - 1) @ [n - 1]"
proof -
  assume "n \<noteq> 0"
  then have "0 < n" by (simp add: word_neq_0_conv)
  then have "unat (n - 1 + 1) = Suc (unat (n - 1))"
    by (intro unat_plus1 [of "n - 1" n]) (simp add: word_less_nat_alt unat_minus_one \<open>n \<noteq> 0\<close>)
  then have "unat n = Suc (unat (n - 1))" by simp
  then show ?thesis by (simp add: range_lt_def)
qed

lemma range_le_eq: "range_le m = range_lt m @ [m]"
  by (simp add: range_le_def range_lt_def)

lemma range_from_rec: "range_from a b = (if a < b then a # range_from (a + 1) b else [])"
proof (cases "a < b")
  case True
  then have "unat a < unat b" by (simp add: word_less_nat_alt)
  then show ?thesis using True unat_plus1 [OF True]
    by (simp add: range_from_def upt_conv_Cons)
next
  case False
  then show ?thesis by (simp add: range_from_def word_less_nat_alt)
qed

lemmas range_evals =
  range_lt_0 range_lt_rec [of 1] range_lt_rec [of "numeral k"] range_le_eq
  range_from_rec [of "numeral a" "numeral b"] range_from_rec [of 0 "numeral b"]
  range_from_rec [of 1 "numeral b"]
  for k a b

section \<open>The loops of the search\<close>

text \<open>The loop bodies without their local variables, for evaluation.\<close>

lemma place_eval:
  "place rec iter state msk y x s =
     (if exited s \<noteq> None then s
      else if push_bit (unat (x + W * y)) msk AND state \<noteq> 0 then s
      else rec (state OR push_bit (unat (x + W * y)) msk)
             (s\<lparr>solution := (solution s)[unat iter :=
                  \<lparr>piece_mask = push_bit (unat (x + W * y)) msk\<rparr>]\<rparr>))"
  by (simp add: place_def Let_def)

lemma orientation_body_eval:
  "orientation_body rec iter state p j s =
     fold (x_loop rec iter state (po_masks p ! unat j) (W - po_w p ! unat j))
       (range_le (H - po_h p ! unat j)) s"
  by (simp add: orientation_body_def Let_def)

lemma slot_body_eval:
  "slot_body rec iter state i s =
     (if exited s \<noteq> None then s
      else restore_slot i (pieces_available s ! unat i)
             (fold (orientation_body rec iter state (pieces_available s ! unat i))
                (range_lt (po_n (pieces_available s ! unat i))) (take_slot i s)))"
  by (simp add: slot_body_def Let_def)

lemma cell_body_eval:
  "cell_body x y i (found, s) =
     (if exited s \<noteq> None then (found, s)
      else if piece_mask (solution s ! unat i) AND bit_at (x + W * y) \<noteq> 0
      then (if found \<noteq> 0
            then (found, s\<lparr>stderr := stderr s @ ''Internal error: overlapping pieces!'' @ [CHR 0x0A],
                            exited := Some 1\<rparr>)
            else (1, printf_out [patterns ! unat i] s))
      else (found, s))"
  by (simp add: cell_body_def Let_def)

lemmas search_evals =
  recurse.simps slot_body_eval take_slot_def restore_slot_def orientation_body_eval
  x_loop_def place_eval log_call_def found_solution_def print_solution_def print_row_def
  print_cell_def cell_body_eval printf_out_def patterns_def range_evals
  W_def H_def NUM_PIECES_def bit_at_def

lemma fold_concat: "fold f (concat xss) = fold (fold f) xss"
  by (induction xss) simp_all

lemma place_try:
  "place rec iter state msk y = (\<lambda>x. try_mask rec iter state (push_bit (unat (x + W * y)) msk))"
  by (intro ext) (simp add: place_def try_mask_def Let_def)

lemma orientation_body_shifts:
  "orientation_body rec iter state p j s =
     fold (try_mask rec iter state) (shifts (po_masks p ! unat j, po_w p ! unat j, po_h p ! unat j)) s"
proof -
  have "x_loop rec iter state msk x_max =
        (\<lambda>y. fold (\<lambda>x. try_mask rec iter state (push_bit (unat (x + W * y)) msk)) (range_le x_max))"
    for msk x_max
    by (intro ext) (simp add: x_loop_def place_try)
  then show ?thesis
    by (simp add: orientation_body_def shifts_def Let_def fold_concat fold_map comp_def)
qed

lemma orientation_loop:
  "fold (orientation_body rec iter state p) (range_lt (po_n p)) s =
     fold (try_mask rec iter state) (placements p) s"
proof -
  have "orientation_body rec iter state p =
        (\<lambda>j. fold (try_mask rec iter state) (shifts (po_masks p ! unat j, po_w p ! unat j, po_h p ! unat j)))"
    by (intro ext) (rule orientation_body_shifts)
  then show ?thesis
    by (simp add: placements_def orientations_def fold_concat fold_map comp_def)
qed

lemma slot_body_alt:
  "slot_body rec iter state i s =
     (if exited s \<noteq> None then s
      else
        let p = pieces_available s ! unat i;
            s2 = fold (try_mask rec iter state) (placements p)
                   (s\<lparr>pieces_available := (pieces_available s)[unat i := pieces_available s ! 0]\<rparr>)
        in if exited s2 \<noteq> None then s2
           else s2\<lparr>pieces_available := (pieces_available s2)[unat i := p]\<rparr>)"
  by (simp add: slot_body_def restore_slot_def take_slot_def Let_def orientation_loop)

lemma extends_refl: "extends C k s s"
  by (simp add: extends_def)

lemma extends_trans: "extends C k s t \<Longrightarrow> extends C k t u \<Longrightarrow> extends C k s u"
  by (auto simp: extends_def)

lemma extends_Suc: "extends C (Suc k) s t \<Longrightarrow> extends C k s t"
proof -
  assume a: "extends C (Suc k) s t"
  then have "take k (take (Suc k) (solution t)) = take k (take (Suc k) (solution s))"
    by (simp only: extends_def)
  then have "take k (solution t) = take k (solution s)" by (simp add: min_def)
  with a show ?thesis by (simp add: extends_def)
qed

lemma printf_out_fields [simp]:
  "pieces_available (printf_out t s) = pieces_available s"
  "solution (printf_out t s) = solution s"
  "calls (printf_out t s) = calls s"
  "exited (printf_out t s) = exited s"
  by (simp_all add: printf_out_def)

lemma cell_body_memory:
  "same_memory s (snd fs) \<Longrightarrow> same_memory s (snd (cell_body x y i fs))"
  by (cases fs) (simp add: cell_body_def same_memory_def Let_def)

lemma cell_loop_memory:
  "same_memory s (snd fs) \<Longrightarrow> same_memory s (snd (fold (cell_body x y) is fs))"
  by (induction "is" arbitrary: fs) (simp_all add: cell_body_memory)

lemma print_cell_memory: "same_memory s t \<Longrightarrow> same_memory s (print_cell sofar y x t)"
  using cell_loop_memory [of s "(0, t)" x y "range_lt sofar"]
  by (auto simp: print_cell_def same_memory_def split: prod.splits)

lemma print_row_memory: "same_memory s t \<Longrightarrow> same_memory s (print_row sofar y t)"
proof -
  assume "same_memory s t"
  then have "same_memory s (fold (print_cell sofar y) xs t)" for xs
    by (induction xs arbitrary: t) (simp_all add: print_cell_memory)
  then show ?thesis by (simp add: print_row_def same_memory_def)
qed

lemma print_solution_memory: "same_memory s (print_solution sofar s)"
proof -
  have "same_memory s t \<Longrightarrow> same_memory s (fold (print_row sofar) ys t)" for ys t
    by (induction ys arbitrary: t) (simp_all add: print_row_memory)
  then have "same_memory s (fold (print_row sofar) (range_lt H) s)"
    by (simp add: same_memory_def)
  then show ?thesis by (simp add: print_solution_def same_memory_def)
qed

lemma printf_out_exited: "exited s \<noteq> None \<Longrightarrow> printf_out t s = s"
  by (simp add: printf_out_def)

lemma cell_loop_exited: "exited s \<noteq> None \<Longrightarrow> fold (cell_body x y) is (found, s) = (found, s)"
  by (induction "is") (simp_all add: cell_body_def)

lemma print_cell_exited: "exited s \<noteq> None \<Longrightarrow> print_cell sofar y x s = s"
  by (simp add: print_cell_def cell_loop_exited printf_out_exited)

lemma print_row_exited: "exited s \<noteq> None \<Longrightarrow> print_row sofar y s = s"
proof -
  assume e: "exited s \<noteq> None"
  have "fold (print_cell sofar y) xs s = s" for xs
    by (induction xs) (simp_all add: print_cell_exited e)
  then show ?thesis by (simp add: print_row_def printf_out_exited e)
qed

lemma print_solution_exited: "exited s \<noteq> None \<Longrightarrow> print_solution sofar s = s"
proof -
  assume e: "exited s \<noteq> None"
  have "fold (print_row sofar) ys s = s" for ys
    by (induction ys) (simp_all add: print_row_exited e)
  then show ?thesis by (simp add: print_solution_def printf_out_exited e)
qed

lemma found_solution_exited: "exited s \<noteq> None \<Longrightarrow> found_solution s = s"
  by (simp add: found_solution_def printf_out_exited print_solution_exited)

text \<open>A loop of exit-aware steps: it exits at the first element that makes a step exit.\<close>

lemma fold_exit:
  assumes frozen: "\<And>x s. exited s \<noteq> None \<Longrightarrow> f x s = s"
    and step: "\<And>x s. exited s = None \<Longrightarrow>
      exited (f x s) = (if B (solution s) x then Some 1 else None) \<and>
      stderr (f x s) = (if B (solution s) x then stderr s @ d else stderr s) \<and>
      solution (f x s) = solution s"
    and "exited s = None"
  shows "exited (fold f xs s) = (if list_ex (B (solution s)) xs then Some 1 else None) \<and>
         stderr (fold f xs s) = (if list_ex (B (solution s)) xs then stderr s @ d else stderr s) \<and>
         solution (fold f xs s) = solution s"
  using assms(3)
proof (induction xs arbitrary: s)
  case Nil
  then show ?case by simp
next
  case (Cons x xs)
  show ?case
  proof (cases "B (solution s) x")
    case True
    then have e: "exited (f x s) \<noteq> None" using step [OF Cons.prems, of x] by simp
    have "fold f xs t = t" if "exited t \<noteq> None" for t
      using that by (induction xs) (simp_all add: frozen)
    then have "fold f (x # xs) s = f x s" using e by simp
    then show ?thesis using step [OF Cons.prems, of x] True by simp
  next
    case False
    then have "exited (f x s) = None" "stderr (f x s) = stderr s" "solution (f x s) = solution s"
      using step [OF Cons.prems, of x] by simp_all
    then show ?thesis using Cons.IH [of "f x s"] False by simp
  qed
qed

lemma printf_out_stderr [simp]: "stderr (printf_out t s) = stderr s"
  by (simp add: printf_out_def)

lemma cell_loop_status:
  assumes "exited s = None"
  shows "exited (snd (fold (cell_body x y) is (found, s))) =
           (if 2 \<le> length (filter (covers (solution s) x y) is) + (if found \<noteq> 0 then 1 else 0)
            then Some 1 else None) \<and>
         stderr (snd (fold (cell_body x y) is (found, s))) =
           (if 2 \<le> length (filter (covers (solution s) x y) is) + (if found \<noteq> 0 then 1 else 0)
            then stderr s @ diagnostic else stderr s) \<and>
         solution (snd (fold (cell_body x y) is (found, s))) = solution s"
  using assms
proof (induction "is" arbitrary: found s)
  case Nil
  then show ?case by simp
next
  case (Cons i "is")
  show ?case
  proof (cases "covers (solution s) x y i")
    case False
    then have "cell_body x y i (found, s) = (found, s)"
      using Cons.prems by (simp add: cell_body_eval covers_def)
    then show ?thesis using Cons.IH [OF Cons.prems, of found] False by simp
  next
    case True
    show ?thesis
    proof (cases "found = 0")
      case True
      then have "cell_body x y i (found, s) = (1, printf_out [patterns ! unat i] s)"
        using Cons.prems \<open>covers (solution s) x y i\<close> by (simp add: cell_body_eval covers_def)
      then show ?thesis
        using Cons.IH [of "printf_out [patterns ! unat i] s" 1] Cons.prems True
          \<open>covers (solution s) x y i\<close>
        by simp
    next
      case False
      let ?s1 = "s\<lparr>stderr := stderr s @ diagnostic, exited := Some 1\<rparr>"
      have "cell_body x y i (found, s) = (found, ?s1)"
        using Cons.prems False \<open>covers (solution s) x y i\<close>
        by (simp add: cell_body_eval covers_def diagnostic_def)
      moreover have "fold (cell_body x y) is (found, ?s1) = (found, ?s1)"
        by (rule cell_loop_exited) simp
      ultimately show ?thesis using False \<open>covers (solution s) x y i\<close> by simp
    qed
  qed
qed

lemma print_cell_status:
  assumes "exited s = None"
  shows "exited (print_cell sofar y x s) = (if overlap_at (solution s) sofar y x then Some 1 else None) \<and>
         stderr (print_cell sofar y x s) =
           (if overlap_at (solution s) sofar y x then stderr s @ diagnostic else stderr s) \<and>
         solution (print_cell sofar y x s) = solution s"
proof -
  obtain f' s' where fs: "fold (cell_body x y) (range_lt sofar) (0, s) = (f', s')"
    by fastforce
  have "print_cell sofar y x s = (if f' = 0 then printf_out '' '' s' else s')"
    by (simp add: print_cell_def fs)
  then show ?thesis
    using cell_loop_status [OF assms, of x y "range_lt sofar" 0] fs
    by (simp add: overlap_at_def)
qed

lemma print_row_status:
  assumes "exited s = None"
  shows "exited (print_row sofar y s) = (if overlap_in_row (solution s) sofar y then Some 1 else None) \<and>
         stderr (print_row sofar y s) =
           (if overlap_in_row (solution s) sofar y then stderr s @ diagnostic else stderr s) \<and>
         solution (print_row sofar y s) = solution s"
proof -
  have "exited (fold (print_cell sofar y) (range_lt W) s) =
          (if list_ex (\<lambda>x. overlap_at (solution s) sofar y x) (range_lt W) then Some 1 else None) \<and>
        stderr (fold (print_cell sofar y) (range_lt W) s) =
          (if list_ex (\<lambda>x. overlap_at (solution s) sofar y x) (range_lt W)
           then stderr s @ diagnostic else stderr s) \<and>
        solution (fold (print_cell sofar y) (range_lt W) s) = solution s"
    by (rule fold_exit [where B = "\<lambda>sol x. overlap_at sol sofar y x"])
       (simp_all add: print_cell_exited print_cell_status assms)
  then show ?thesis by (simp add: print_row_def overlap_in_row_def)
qed

lemma print_solution_status:
  assumes "exited s = None"
  shows "exited (print_solution sofar s) = (if overlapping (solution s) sofar then Some 1 else None) \<and>
         stderr (print_solution sofar s) =
           (if overlapping (solution s) sofar then stderr s @ diagnostic else stderr s)"
proof -
  have "exited (fold (print_row sofar) (range_lt H) s) =
          (if list_ex (\<lambda>y. overlap_in_row (solution s) sofar y) (range_lt H) then Some 1 else None) \<and>
        stderr (fold (print_row sofar) (range_lt H) s) =
          (if list_ex (\<lambda>y. overlap_in_row (solution s) sofar y) (range_lt H)
           then stderr s @ diagnostic else stderr s) \<and>
        solution (fold (print_row sofar) (range_lt H) s) = solution s"
    by (rule fold_exit [where B = "\<lambda>sol y. overlap_in_row sol sofar y"])
       (simp_all add: print_row_exited print_row_status assms)
  then show ?thesis by (simp add: print_solution_def overlapping_def)
qed

lemma found_solution_status:
  assumes "exited s = None"
  shows "exited (found_solution s) =
           (if overlapping (solution s) NUM_PIECES then Some 1 else None)"
    and "stderr (found_solution s) =
           (if overlapping (solution s) NUM_PIECES then stderr s @ diagnostic else stderr s)"
  using print_solution_status [of "printf_out (''Hey, found a solution!'' @ [CHR 0x0A]) s" NUM_PIECES]
    assms
  by (simp_all add: found_solution_def)

lemma found_solution_memory: "same_memory s (found_solution s)"
  using print_solution_memory [of "printf_out (''Hey, found a solution!'' @ [CHR 0x0A]) s" NUM_PIECES]
  by (simp add: found_solution_def same_memory_def)

text \<open>
  The invariant rule of the search.  \<open>I iter state pool sol\<close> is a property of the
  arguments of a call; when each placement step keeps it and it only depends on the
  first \<open>iter\<close> entries of \<open>sol\<close>, every call made by the search satisfies it.
\<close>

lemma slot_body_extends:
  assumes step: "\<And>pm sol.
      I iter state pool sol \<Longrightarrow> pm \<in> set (placements (pool ! unat i)) \<Longrightarrow> pm AND state = 0 \<Longrightarrow>
      I (iter + 1) (state OR pm) (pool[unat i := pool ! 0]) (sol[unat iter := \<lparr>piece_mask = pm\<rparr>])"
    and pre: "\<And>sol sol'.
      I iter state pool sol \<Longrightarrow> length sol' = length sol \<Longrightarrow>
      take (unat iter) sol' = take (unat iter) sol \<Longrightarrow> I iter state pool sol'"
    and rec: "\<And>st u. I (iter + 1) st (pieces_available u) (solution u) \<Longrightarrow>
      extends C (Suc (unat iter)) u (rec st u)"
    and inv: "I iter state pool (solution s)" and pool: "pieces_available s = pool"
  shows "extends C (unat iter) s (slot_body rec iter state i s)"
proof (cases "exited s = None")
  case False
  then show ?thesis by (simp add: slot_body_alt extends_refl)
next
  case True
  let ?k = "unat iter"
  let ?p = "pool ! unat i"
  let ?s1 = "s\<lparr>pieces_available := pool[unat i := pool ! 0]\<rparr>"
  have inner: "extends C ?k ?s1 (try_mask rec iter state pm u)"
    if pm: "pm \<in> set (placements ?p)" and u: "extends C ?k ?s1 u" for pm u
  proof (cases "exited u \<noteq> None \<or> pm AND state \<noteq> 0")
    case True
    then show ?thesis using u by (simp add: try_mask_def)
  next
    case False
    let ?u' = "u\<lparr>solution := (solution u)[?k := \<lparr>piece_mask = pm\<rparr>]\<rparr>"
    have pool_u: "pieces_available u = pool[unat i := pool ! 0]"
      and len_u: "length (solution u) = length (solution s)"
      and take_u: "take ?k (solution u) = take ?k (solution s)"
      using u False by (simp_all add: extends_def)
    have "I iter state pool (solution u)"
      using pre [OF inv len_u take_u] .
    then have "I (iter + 1) (state OR pm) (pieces_available ?u') (solution ?u')"
      using step [OF _ pm] False pool_u by simp
    then have "extends C (Suc ?k) ?u' (rec (state OR pm) ?u')"
      by (rule rec)
    then have "extends C ?k ?u' (rec (state OR pm) ?u')"
      by (rule extends_Suc)
    moreover have "extends C ?k u ?u'" by (simp add: extends_def)
    ultimately show ?thesis using u False by (auto simp: try_mask_def intro: extends_trans)
  qed
  let ?s2 = "fold (try_mask rec iter state) (placements ?p) ?s1"
  have s2: "extends C ?k ?s1 ?s2"
    by (rule fold_invariant [where Q = "\<lambda>pm. pm \<in> set (placements ?p)"])
       (simp_all add: extends_refl inner)
  have "extends C ?k s (if exited ?s2 \<noteq> None then ?s2
          else ?s2\<lparr>pieces_available := (pieces_available ?s2)[unat i := ?p]\<rparr>)"
    using s2 True pool by (auto simp: extends_def list_update_overwrite)
  then show ?thesis
    using True pool by (simp add: slot_body_alt Let_def)
qed

lemma recurse_extends:
  assumes step: "\<And>iter state pool sol i pm.
      I iter state pool sol \<Longrightarrow> iter \<le> i \<Longrightarrow> i < NUM_PIECES \<Longrightarrow>
      pm \<in> set (placements (pool ! unat i)) \<Longrightarrow> pm AND state = 0 \<Longrightarrow>
      I (iter + 1) (state OR pm) (pool[unat i := pool ! 0]) (sol[unat iter := \<lparr>piece_mask = pm\<rparr>])"
    and pre: "\<And>iter state pool sol sol'.
      I iter state pool sol \<Longrightarrow> length sol' = length sol \<Longrightarrow>
      take (unat iter) sol' = take (unat iter) sol \<Longrightarrow> I iter state pool sol'"
  shows "I iter state (pieces_available s) (solution s) \<Longrightarrow>
         extends (call_inv I) (unat iter) s (recurse iter state s)"
proof (induction iter state s rule: recurse.induct)
  case (1 iter state s)
  let ?C = "call_inv I" and ?k = "unat iter"
  let ?s0 = "log_call iter state s"
  have s0: "extends ?C ?k s ?s0"
    using "1.prems" by (simp add: extends_def log_call_def)
  show ?case
  proof (cases "iter = NUM_PIECES")
    case True
    have "extends ?C ?k s (found_solution ?s0)"
      using found_solution_memory [of ?s0] found_solution_exited [of ?s0]
        found_solution_status [of ?s0] "1.prems" True
      by (cases "exited s = None")
         (auto simp: extends_def same_memory_def log_call_def bad_call_def)
    moreover have "recurse iter state s = found_solution ?s0"
      using True by (subst recurse.simps) simp
    ultimately show ?thesis by simp
  next
    case False
    have slot: "extends ?C ?k s (slot_body (recurse (iter + 1)) iter state i t)"
      if i: "i \<in> set (range_from iter NUM_PIECES)" and t: "extends ?C ?k s t" for i t
    proof (cases "exited t = None")
      case False
      then show ?thesis using t by (simp add: slot_body_alt)
    next
      case True
      have bounds: "iter \<le> i" "i < NUM_PIECES" using i by (simp_all add: range_from_iff)
      then have Suc: "unat (iter + 1) = Suc ?k"
        using unat_plus1 [of iter NUM_PIECES] by auto
      have pool_t: "pieces_available t = pieces_available s"
        and len_t: "length (solution t) = length (solution s)"
        and take_t: "take ?k (solution t) = take ?k (solution s)"
        using t True by (simp_all add: extends_def)
      have inv_t: "I iter state (pieces_available s) (solution t)"
        using pre [OF "1.prems" len_t take_t] .
      have "extends ?C ?k t (slot_body (recurse (iter + 1)) iter state i t)"
      proof (rule slot_body_extends [where I = I and pool = "pieces_available s"])
        show "I (iter + 1) (state OR pm) ((pieces_available s)[unat i := pieces_available s ! 0])
                (sol[unat iter := \<lparr>piece_mask = pm\<rparr>])"
          if "I iter state (pieces_available s) sol"
            "pm \<in> set (placements (pieces_available s ! unat i))" "pm AND state = 0"
          for pm sol
          using step [OF that(1) bounds that(2,3)] .
      qed (use pre inv_t pool_t "1.IH" [OF False i] Suc in auto)
      with t show ?thesis by (rule extends_trans)
    qed
    have "extends ?C ?k s (fold (slot_body (recurse (iter + 1)) iter state)
            (range_from iter NUM_PIECES) ?s0)"
      by (rule fold_invariant [where Q = "\<lambda>i. i \<in> set (range_from iter NUM_PIECES)"])
         (simp_all add: s0 slot)
    then show ?thesis using False by (simp add: recurse.simps [of iter])
  qed
qed

section \<open>Masks\<close>

lemma popcount_card: "popcount m = card {n. bit m n}"
proof -
  have "{n. bit m n} = set (filter (bit m) [0..<32])"
    by (auto dest: bit_imp_le_length)
  moreover have "distinct (filter (bit m) [0..<32])" by simp
  ultimately show ?thesis
    by (simp only: popcount_def distinct_card)
qed

lemma popcount_disjoint:
  assumes "a AND b = 0"
  shows "popcount (a OR b) = popcount a + popcount b"
proof -
  have "{n. bit (a OR b) n} = {n. bit a n} \<union> {n. bit b n}"
    by (auto simp: bit_or_iff)
  moreover have "{n. bit a n} \<inter> {n. bit b n} = {}"
  proof -
    have "\<not> (bit a n \<and> bit b n)" for n
      using assms bit_and_iff [of a b n] by simp
    then show ?thesis by auto
  qed
  ultimately show ?thesis
    by (simp add: popcount_card card_Un_disjoint)
qed

lemma board_bit: "bit board n \<longleftrightarrow> n < 28"
proof -
  have "board = mask 28" by (simp add: board_def mask_eq_exp_minus_1)
  moreover have "bit (mask 28 :: u32) n \<longleftrightarrow> n < 28" by (simp only: bit_mask_iff) auto
  ultimately show ?thesis by (simp only:)
qed

lemma high_bits: "bit (0xF0000000 :: u32) n \<longleftrightarrow> 28 \<le> n \<and> n < 32"
proof -
  have "(0xF0000000 :: u32) = push_bit 28 (mask 4)" by (simp add: mask_eq_exp_minus_1)
  moreover have "bit (push_bit 28 (mask 4 :: u32)) n \<longleftrightarrow> 28 \<le> n \<and> n < 32"
    by (simp only: bit_push_bit_iff bit_mask_iff) auto
  ultimately show ?thesis by (simp only:)
qed

lemma on_board_iff: "on_board m \<longleftrightarrow> (\<forall>n. bit m n \<longrightarrow> n < 28)"
proof
  assume a: "on_board m"
  show "\<forall>n. bit m n \<longrightarrow> n < 28"
  proof (intro allI impI)
    fix n assume n: "bit m n"
    have "\<not> bit (m AND 0xF0000000) n" using a by (simp add: on_board_def)
    then have "\<not> bit (0xF0000000 :: u32) n" using n by (simp add: bit_and_iff)
    moreover have "n < 32" using bit_imp_le_length [OF n] by simp
    ultimately show "n < 28" using high_bits [of n] by auto
  qed
next
  assume "\<forall>n. bit m n \<longrightarrow> n < 28"
  then have "\<not> (bit m n \<and> bit (0xF0000000 :: u32) n)" for n
    using high_bits [of n] by auto
  then have "m AND 0xF0000000 = 0"
    by (intro bit_eqI) (simp add: bit_and_iff)
  then show "on_board m" by (simp add: on_board_def)
qed

lemma full_board:
  assumes "on_board m" and "popcount m = 28"
  shows "m = board"
proof -
  have sub: "{n. bit m n} \<subseteq> {0..<28}"
    using assms(1) by (auto simp: on_board_iff)
  have "card {n. bit m n} = card {0..<28::nat}"
    using assms(2) by (simp add: popcount_card)
  with sub have "{n. bit m n} = {0..<28}"
    by (intro card_subset_eq) simp_all
  then have "bit m n \<longleftrightarrow> n < 28" for n by auto
  then show ?thesis by (intro bit_eqI) (simp add: board_bit)
qed

lemma union_masks_snoc: "union_masks (ms @ [m]) = union_masks ms OR m"
  by (simp add: union_masks_def)

lemma union_masks_disjoint:
  "pm AND union_masks ms = 0 \<longleftrightarrow> list_all (\<lambda>m. m AND pm = 0) ms"
proof (induction ms rule: rev_induct)
  case Nil
  then show ?case by (simp add: union_masks_def)
next
  case (snoc m ms)
  have "pm AND (union_masks ms OR m) = 0 \<longleftrightarrow> pm AND union_masks ms = 0 \<and> pm AND m = 0"
    by (simp add: bit.conj_disj_distrib or_eq_0_iff)
  then show ?case using snoc by (simp add: union_masks_snoc and.commute)
qed

lemma disjoint_masks_snoc:
  "disjoint_masks (ms @ [pm]) \<longleftrightarrow> disjoint_masks ms \<and> list_all (\<lambda>m. m AND pm = 0) ms"
  by (induction ms) auto

lemma bit_union_masks: "bit (union_masks ms) n \<longleftrightarrow> (\<exists>m \<in> set ms. bit m n)"
  by (induction ms rule: rev_induct) (auto simp: union_masks_snoc bit_or_iff union_masks_def)

lemma union_masks_on_board: "list_all on_board ms \<Longrightarrow> on_board (union_masks ms)"
  by (auto simp: on_board_iff bit_union_masks list_all_iff)

lemma popcount_union:
  "disjoint_masks ms \<Longrightarrow> popcount (union_masks ms) = sum_list (map popcount ms)"
proof (induction ms rule: rev_induct)
  case Nil
  then show ?case by (simp add: union_masks_def popcount_def)
next
  case (snoc m ms)
  then have d: "disjoint_masks ms" "list_all (\<lambda>m'. m' AND m = 0) ms"
    by (simp_all add: disjoint_masks_snoc)
  then have "union_masks ms AND m = 0"
    using union_masks_disjoint [of m ms] by (simp add: and.commute)
  then show ?case using snoc.IH d
    by (simp add: union_masks_snoc popcount_disjoint)
qed

lemma disjoint_masks_nth:
  "disjoint_masks ms \<Longrightarrow> i < length ms \<Longrightarrow> j < length ms \<Longrightarrow> i \<noteq> j \<Longrightarrow> ms ! i AND ms ! j = 0"
proof (induction ms arbitrary: i j)
  case Nil
  then show ?case by simp
next
  case (Cons m ms)
  show ?case
  proof (cases i)
    case 0
    then obtain j' where "j = Suc j'" using Cons.prems by (cases j) auto
    then show ?thesis using Cons.prems 0 by (auto simp: list_all_length)
  next
    case (Suc i')
    show ?thesis
    proof (cases j)
      case 0
      then show ?thesis using Cons.prems Suc by (auto simp: list_all_length and.commute)
    next
      case (Suc j')
      then show ?thesis using Cons \<open>i = Suc i'\<close> by auto
    qed
  qed
qed

lemma popcount_rec: "popcount m = (if odd m then 1 else 0) + popcount (m div 2)"
proof -
  have 1: "{n. bit m n} = (if odd m then {0} else {}) \<union> Suc ` {n. bit (m div 2) n}"
  proof -
    have "bit m n \<longleftrightarrow> (n = 0 \<and> odd m) \<or> (\<exists>k. n = Suc k \<and> bit (m div 2) k)" for n
      by (cases n) (simp_all add: bit_0 bit_Suc)
    then show ?thesis by (auto simp: image_iff)
  qed
  have "card {n. bit m n} = card (if odd m then {0::nat} else {}) + card (Suc ` {n. bit (m div 2) n})"
    unfolding 1 by (intro card_Un_disjoint) (auto)
  also have "card (Suc ` {n. bit (m div 2) n}) = card {n. bit (m div 2) n}"
    by (intro card_image) simp
  finally show ?thesis by (simp add: popcount_card)
qed

lemma popcount_0: "popcount 0 = 0" by (simp add: popcount_def)

lemmas popcount_evals = popcount_0 popcount_rec [of 1] popcount_rec [of "numeral k"] for k


section \<open>The orientation table\<close>

lemmas gen_evals = calc_piece_def def_mask_def range_evals W_def H_def NUM_PIECES_def
  bit_at_def j_body_def k_body_def redundant_orientation_def mirror_def mirror_step_def
  horiz_mask_def rotate_def piece_definition_def Let_def

lemma length8E:
  assumes "length xs = 8"
  obtains a b c d e f g h where "xs = [a, b, c, d, e, f, g, h]"
  using assms by (auto simp: eval_nat_numeral length_Suc_conv)

lemma length7E:
  assumes "length xs = 7"
  obtains a b c d e f g where "xs = [a, b, c, d, e, f, g]"
  using assms by (auto simp: eval_nat_numeral length_Suc_conv)

lemma wf_poE:
  assumes "wf_po a"
  obtains n m0 m1 m2 m3 m4 m5 m6 m7 w0 w1 w2 w3 w4 w5 w6 w7 h0 h1 h2 h3 h4 h5 h6 h7
  where "a = \<lparr>po_n = n, po_masks = [m0, m1, m2, m3, m4, m5, m6, m7],
               po_w = [w0, w1, w2, w3, w4, w5, w6, w7],
               po_h = [h0, h1, h2, h3, h4, h5, h6, h7]\<rparr>"
proof -
  from assms have l: "length (po_masks a) = 8" "length (po_w a) = 8" "length (po_h a) = 8"
    by (simp_all add: wf_po_def)
  from l(1) obtain m0 m1 m2 m3 m4 m5 m6 m7 where m: "po_masks a = [m0, m1, m2, m3, m4, m5, m6, m7]"
    by (rule length8E)
  from l(2) obtain w0 w1 w2 w3 w4 w5 w6 w7 where w: "po_w a = [w0, w1, w2, w3, w4, w5, w6, w7]"
    by (rule length8E)
  from l(3) obtain h0 h1 h2 h3 h4 h5 h6 h7 where h: "po_h a = [h0, h1, h2, h3, h4, h5, h6, h7]"
    by (rule length8E)
  have "a = \<lparr>po_n = po_n a, po_masks = [m0, m1, m2, m3, m4, m5, m6, m7],
               po_w = [w0, w1, w2, w3, w4, w5, w6, w7],
               po_h = [h0, h1, h2, h3, h4, h5, h6, h7]\<rparr>"
    using m w h by (cases a) simp
  then show ?thesis by (rule that)
qed


lemma calc_piece_0:
  "wf_po a \<Longrightarrow> po_n (calc_piece (piece_definition ! 0) a) = 2 \<and>
     orientations (calc_piece (piece_definition ! 0) a) = [(15, 4, 1), (4369, 1, 4)]"
  by (erule wf_poE) (simp add: gen_evals orientations_def)

lemma calc_piece_1:
  "wf_po a \<Longrightarrow> po_n (calc_piece (piece_definition ! 1) a) = 1 \<and>
     orientations (calc_piece (piece_definition ! 1) a) = [(51, 2, 2)]"
  by (erule wf_poE) (simp add: gen_evals orientations_def)

lemma calc_piece_2:
  "wf_po a \<Longrightarrow> po_n (calc_piece (piece_definition ! 2) a) = 4 \<and>
     orientations (calc_piece (piece_definition ! 2) a) =
       [(99, 3, 2), (54, 3, 2), (306, 2, 3), (561, 2, 3)]"
  by (erule wf_poE) (simp add: gen_evals orientations_def)

lemma calc_piece_3:
  "wf_po a \<Longrightarrow> po_n (calc_piece (piece_definition ! 3) a) = 4 \<and>
     orientations (calc_piece (piece_definition ! 3) a) =
       [(54, 3, 2), (99, 3, 2), (561, 2, 3), (306, 2, 3)]"
  by (erule wf_poE) (simp add: gen_evals orientations_def)

lemma calc_piece_4:
  "wf_po a \<Longrightarrow> po_n (calc_piece (piece_definition ! 4) a) = 8 \<and>
     orientations (calc_piece (piece_definition ! 4) a) =
       [(23, 3, 2), (113, 3, 2), (547, 2, 3), (802, 2, 3),
        (116, 3, 2), (71, 3, 2), (785, 2, 3), (275, 2, 3)]"
  by (erule wf_poE) (simp add: gen_evals orientations_def)

lemma calc_piece_5:
  "wf_po a \<Longrightarrow> po_n (calc_piece (piece_definition ! 5) a) = 8 \<and>
     orientations (calc_piece (piece_definition ! 5) a) =
       [(71, 3, 2), (116, 3, 2), (802, 2, 3), (547, 2, 3),
        (113, 3, 2), (23, 3, 2), (275, 2, 3), (785, 2, 3)]"
  by (erule wf_poE) (simp add: gen_evals orientations_def)

lemma calc_piece_6:
  "wf_po a \<Longrightarrow> po_n (calc_piece (piece_definition ! 6) a) = 4 \<and>
     orientations (calc_piece (piece_definition ! 6) a) =
       [(114, 3, 2), (39, 3, 2), (305, 2, 3), (562, 2, 3)]"
  by (erule wf_poE) (simp add: gen_evals orientations_def)

lemma calc_pieces_available_eq:
  assumes "length avail = 7"
  shows "calc_pieces_available avail =
     [calc_piece (piece_definition ! 0) (avail ! 0), calc_piece (piece_definition ! 1) (avail ! 1),
      calc_piece (piece_definition ! 2) (avail ! 2), calc_piece (piece_definition ! 3) (avail ! 3),
      calc_piece (piece_definition ! 4) (avail ! 4), calc_piece (piece_definition ! 5) (avail ! 5),
      calc_piece (piece_definition ! 6) (avail ! 6)]"
  using assms
  by (elim length7E) (simp add: calc_pieces_available_def range_evals NUM_PIECES_def)

lemma wf_avail_nth: "wf_avail avail \<Longrightarrow> i < 7 \<Longrightarrow> wf_po (avail ! i)"
  by (simp add: wf_avail_def list_all_length)

lemma table_counts:
  assumes "wf_avail avail"
  shows "map po_n (calc_pieces_available avail) = [2, 1, 4, 4, 8, 8, 4]"
proof -
  have len: "length avail = 7" using assms by (simp add: wf_avail_def)
  have w: "wf_po (avail ! 0)" "wf_po (avail ! 1)" "wf_po (avail ! 2)" "wf_po (avail ! 3)"
    "wf_po (avail ! 4)" "wf_po (avail ! 5)" "wf_po (avail ! 6)"
    using wf_avail_nth [OF assms] by simp_all
  show ?thesis
    unfolding calc_pieces_available_eq [OF len]
    using calc_piece_0 [OF w(1)] calc_piece_1 [OF w(2)] calc_piece_2 [OF w(3)]
      calc_piece_3 [OF w(4)] calc_piece_4 [OF w(5)] calc_piece_5 [OF w(6)]
      calc_piece_6 [OF w(7)]
    by simp
qed

lemma table_orientations:
  assumes "wf_avail avail"
  shows "map orientations (calc_pieces_available avail) =
    [[(15, 4, 1), (4369, 1, 4)],
     [(51, 2, 2)],
     [(99, 3, 2), (54, 3, 2), (306, 2, 3), (561, 2, 3)],
     [(54, 3, 2), (99, 3, 2), (561, 2, 3), (306, 2, 3)],
     [(23, 3, 2), (113, 3, 2), (547, 2, 3), (802, 2, 3),
      (116, 3, 2), (71, 3, 2), (785, 2, 3), (275, 2, 3)],
     [(71, 3, 2), (116, 3, 2), (802, 2, 3), (547, 2, 3),
      (113, 3, 2), (23, 3, 2), (275, 2, 3), (785, 2, 3)],
     [(114, 3, 2), (39, 3, 2), (305, 2, 3), (562, 2, 3)]]"
proof -
  have len: "length avail = 7" using assms by (simp add: wf_avail_def)
  have w: "wf_po (avail ! 0)" "wf_po (avail ! 1)" "wf_po (avail ! 2)" "wf_po (avail ! 3)"
    "wf_po (avail ! 4)" "wf_po (avail ! 5)" "wf_po (avail ! 6)"
    using wf_avail_nth [OF assms] by simp_all
  show ?thesis
    unfolding calc_pieces_available_eq [OF len]
    using calc_piece_0 [OF w(1)] calc_piece_1 [OF w(2)] calc_piece_2 [OF w(3)]
      calc_piece_3 [OF w(4)] calc_piece_4 [OF w(5)] calc_piece_5 [OF w(6)]
      calc_piece_6 [OF w(7)]
    by simp
qed

lemma zero_avail_wf: "wf_avail zero_avail"
  by (simp add: wf_avail_def wf_po_def zero_avail_def zero_po_def)

lemmas placements_evals = shifts_def range_evals W_def H_def

lemma table_good:
  assumes "wf_avail avail"
  shows "good_pool (calc_pieces_available avail)"
proof -
  have "list_all (\<lambda>os. list_all good_mask (concat (map shifts os)))
          (map orientations (calc_pieces_available avail))"
    unfolding table_orientations [OF assms]
    by (simp add: placements_evals good_mask_def on_board_def popcount_evals)
  then have "list_all (\<lambda>p. list_all good_mask (placements p)) (calc_pieces_available avail)"
    by (simp add: list_all_iff placements_def)
  moreover have "length (calc_pieces_available avail) = 7"
    using arg_cong [OF table_counts [OF assms], of length] by simp
  ultimately show ?thesis by (simp add: good_pool_def)
qed

section \<open>The invariant of the search\<close>


lemma good_pool_take:
  assumes "good_pool pool"
  shows "good_pool (pool[k := pool ! 0])"
proof -
  have "pool ! 0 \<in> set pool" using assms by (simp add: good_pool_def)
  then have "set (pool[k := pool ! 0]) \<subseteq> set pool"
    using set_update_subset_insert [of pool k "pool ! 0"] by auto
  then show ?thesis using assms by (auto simp: good_pool_def list_all_iff)
qed

lemma good_pool_mask:
  "good_pool pool \<Longrightarrow> k < 7 \<Longrightarrow> pm \<in> set (placements (pool ! k)) \<Longrightarrow> good_mask pm"
  by (auto simp: good_pool_def list_all_iff dest: nth_mem)

lemma unat_slot: "i < NUM_PIECES \<Longrightarrow> unat i < 7"
  by (simp add: NUM_PIECES_def word_less_nat_alt)

lemma masks_update:
  "k < length sol \<Longrightarrow> masks (sol[k := \<lparr>piece_mask = pm\<rparr>]) (Suc k) = masks sol k @ [pm]"
  by (simp add: masks_def take_Suc_conv_app_nth)

lemma tiling_step:
  assumes t: "tiling iter state pool sol" and i: "iter \<le> i" "i < NUM_PIECES"
    and pm: "pm \<in> set (placements (pool ! unat i))" and fit: "pm AND state = 0"
  shows "tiling (iter + 1) (state OR pm) (pool[unat i := pool ! 0])
           (sol[unat iter := \<lparr>piece_mask = pm\<rparr>])"
proof -
  let ?k = "unat iter" and ?ms = "masks sol (unat iter)"
  have lt: "iter < NUM_PIECES" using i by auto
  then have k: "?k < 7" and Suc: "unat (iter + 1) = Suc ?k"
    by (simp_all add: unat_slot unat_plus1 [of iter NUM_PIECES])
  have len: "length sol = 7" and gp: "good_pool pool" and gm: "list_all good_mask ?ms"
    and dj: "disjoint_masks ?ms" and un: "union_masks ?ms = state"
    using t by (simp_all add: tiling_def)
  have good: "good_mask pm"
    using good_pool_mask [OF gp unat_slot [OF i(2)] pm] .
  have ms': "masks (sol[?k := \<lparr>piece_mask = pm\<rparr>]) (Suc ?k) = ?ms @ [pm]"
    using k len by (simp add: masks_update)
  have "list_all (\<lambda>m. m AND pm = 0) ?ms"
    using fit un union_masks_disjoint [of pm ?ms] by simp
  then have "disjoint_masks (?ms @ [pm])" using dj by (simp add: disjoint_masks_snoc)
  moreover have "list_all good_mask (?ms @ [pm])" using gm good by simp
  moreover have "union_masks (?ms @ [pm]) = state OR pm" using un by (simp add: union_masks_snoc)
  ultimately show ?thesis
    using len k Suc ms' good_pool_take [OF gp] by (simp add: tiling_def)
qed

lemma tiling_pre:
  assumes "tiling iter state pool sol" and "length sol' = length sol"
    and "take (unat iter) sol' = take (unat iter) sol"
  shows "tiling iter state pool sol'"
  using assms by (simp add: tiling_def masks_def)

lemma recurse_tiling:
  assumes "tiling iter state (pieces_available s) (solution s)"
  shows "extends (call_inv tiling) (unat iter) s (recurse iter state s)"
  using tiling_step tiling_pre assms by (rule recurse_extends)

lemma extends_calls_since:
  "extends C k s s' \<Longrightarrow> c \<in> set (calls_since s s') \<Longrightarrow> C c"
  by (auto simp: extends_def calls_since_def list_all_iff)

lemma reported_since_call:
  assumes "sol \<in> set (reported_since s s')"
  obtains c where "c \<in> set (calls_since s s')" "c_iter c = NUM_PIECES" "c_solution c = sol"
  using assms by (auto simp: reported_since_def)

lemma tiling_reported:
  assumes "tiling iter state (pieces_available s) (solution s)"
    and "sol \<in> set (reported_since s (recurse iter state s))"
  obtains state' pool' where "tiling NUM_PIECES state' pool' sol"
proof -
  from assms(2) obtain c where c: "c \<in> set (calls_since s (recurse iter state s))"
    "c_iter c = NUM_PIECES" "c_solution c = sol"
    by (rule reported_since_call)
  have "call_inv tiling c"
    using extends_calls_since [OF recurse_tiling [OF assms(1)] c(1)] .
  then have "tiling NUM_PIECES (c_state c) (c_pieces_available c) sol"
    using c by simp
  then show ?thesis by (rule that)
qed

lemma tiling_full:
  assumes "tiling NUM_PIECES state pool sol"
  shows "length sol = 7" and "list_all good_mask (map piece_mask sol)"
    and "disjoint_masks (map piece_mask sol)" and "union_masks (map piece_mask sol) = state"
    and "state = board"
proof -
  from assms show len: "length sol = 7" by (simp add: tiling_def)
  then have m: "masks sol (unat NUM_PIECES) = map piece_mask sol"
    by (simp add: masks_def NUM_PIECES_def)
  from assms m show g: "list_all good_mask (map piece_mask sol)"
    and d: "disjoint_masks (map piece_mask sol)"
    and u: "union_masks (map piece_mask sol) = state"
    by (simp_all add: tiling_def)
  have "sum_list (map popcount (map piece_mask sol)) = 4 * length sol"
    using g by (induction sol) (simp_all add: good_mask_def)
  then have "popcount state = 28" using popcount_union [OF d] u len by simp
  moreover have "on_board state"
    using union_masks_on_board [of "map piece_mask sol"] g u
    by (simp add: list_all_iff good_mask_def)
  ultimately show "state = board" by (rule full_board [rotated])
qed

lemma example6_pool: "good_pool (pieces_available example6)"
  using good_pool_take [OF table_good [OF zero_avail_wf], of 6] by (simp add: example6_def)

lemma example6_tiling: "tiling 6 0x0FFFFFF0 (pieces_available example6) (solution example6)"
proof -
  have "list_all good_mask (masks (solution example6) 6)"
    "disjoint_masks (masks (solution example6) 6)"
    "union_masks (masks (solution example6) 6) = 0x0FFFFFF0"
    "length (solution example6) = 7"
    by (simp_all add: example6_def masks_def good_mask_def on_board_def popcount_evals
        union_masks_def)
  then show ?thesis using example6_pool by (simp add: tiling_def)
qed

lemma table_zero:
  "calc_pieces_available zero_avail =
    [\<lparr>po_n = 2, po_masks = [15, 4369, 0, 0, 0, 0, 0, 0],
       po_w = [4, 1, 0, 0, 0, 0, 0, 0], po_h = [1, 4, 0, 0, 0, 0, 0, 0]\<rparr>,
     \<lparr>po_n = 1, po_masks = [51, 0, 0, 0, 0, 0, 0, 0],
       po_w = [2, 0, 0, 0, 0, 0, 0, 0], po_h = [2, 0, 0, 0, 0, 0, 0, 0]\<rparr>,
     \<lparr>po_n = 4, po_masks = [99, 54, 306, 561, 0, 0, 0, 0],
       po_w = [3, 3, 2, 2, 0, 0, 0, 0], po_h = [2, 2, 3, 3, 0, 0, 0, 0]\<rparr>,
     \<lparr>po_n = 4, po_masks = [54, 99, 561, 306, 0, 0, 0, 0],
       po_w = [3, 3, 2, 2, 0, 0, 0, 0], po_h = [2, 2, 3, 3, 0, 0, 0, 0]\<rparr>,
     \<lparr>po_n = 8, po_masks = [23, 113, 547, 802, 116, 71, 785, 275],
       po_w = [3, 3, 2, 2, 3, 3, 2, 2], po_h = [2, 2, 3, 3, 2, 2, 3, 3]\<rparr>,
     \<lparr>po_n = 8, po_masks = [71, 116, 802, 547, 113, 23, 275, 785],
       po_w = [3, 3, 2, 2, 3, 3, 2, 2], po_h = [2, 2, 3, 3, 2, 2, 3, 3]\<rparr>,
     \<lparr>po_n = 4, po_masks = [114, 39, 305, 562, 0, 0, 0, 0],
       po_w = [3, 3, 2, 2, 0, 0, 0, 0], po_h = [2, 2, 3, 3, 0, 0, 0, 0]\<rparr>]"
  by (simp add: calc_pieces_available_def gen_evals zero_avail_def zero_po_def)

lemma example6_run:
  "recurse 6 0x0FFFFFF0 example6 =
     example6\<lparr>solution := example_solution,
       calls := [\<lparr>c_iter = 6, c_state = 0x0FFFFFF0, c_pieces_available = pieces_available example6,
                  c_solution = solution example6\<rparr>,
                 \<lparr>c_iter = 7, c_state = 0x0FFFFFFF, c_pieces_available = pieces_available example6,
                  c_solution = example_solution\<rparr>],
       stdout := ''Hey, found a solution!'' @ [CHR 0x0A] @ ''****'' @ [CHR 0x0A] @ ''....'' @ [CHR 0x0A]
          @ ''%%%%'' @ [CHR 0x0A] @ ''===='' @ [CHR 0x0A] @ ''####'' @ [CHR 0x0A] @ ''@@@@'' @ [CHR 0x0A]
          @ ''$$$$'' @ [CHR 0x0A] @ ''--------'' @ [CHR 0x0A]\<rparr>"
  by (simp add: example6_def example_solution_def table_zero search_evals)

lemma example6_reported:
  "reported_since example6 (recurse 6 0x0FFFFFF0 example6) = [example_solution]"
  unfolding example6_run
  by (simp add: reported_since_def calls_since_def example6_def NUM_PIECES_def)


text \<open>
  The first call \<^verbatim>\<open>recurse(0, 0, pieces_available, solution)\<close> of \<^verbatim>\<open>main\<close> satisfies
  the invariant \<open>tiling\<close>, which is the hypothesis of the theorems below.
\<close>

lemma main_call_tiling:
  assumes "wf_avail avail" and "length solution0 = 7"
  shows "tiling 0 0 (calc_pieces_available avail) solution0"
  using assms table_good [OF assms(1)]
  by (simp add: tiling_def masks_def union_masks_def)


section \<open>The colouring argument\<close>

lemma dark_disjoint:
  assumes "pm AND state = 0"
  shows "dark (state OR pm) = dark state + dark pm"
proof -
  have "(state AND checker) AND (pm AND checker) = 0"
  proof (rule bit_eqI)
    fix n
    have "\<not> (bit pm n \<and> bit state n)" using assms bit_and_iff [of pm state n] by simp
    then show "bit ((state AND checker) AND (pm AND checker)) n \<longleftrightarrow> bit (0 :: u32) n"
      by (auto simp: bit_and_iff)
  qed
  moreover have "(state OR pm) AND checker = (state AND checker) OR (pm AND checker)"
    by (simp add: bit.conj_disj_distrib2)
  ultimately show ?thesis by (simp add: dark_def popcount_disjoint)
qed

lemma dark_board: "dark board = 14"
  by (simp add: dark_def board_def checker_def popcount_evals)

lemma parity_step:
  assumes inv: "parity_inv iter state pool sol" and i: "iter \<le> i" "i < NUM_PIECES"
    and pm: "pm \<in> set (placements (pool ! unat i))" and fit: "pm AND state = 0"
  shows "parity_inv (iter + 1) (state OR pm) (pool[unat i := pool ! 0])
           (sol[unat iter := \<lparr>piece_mask = pm\<rparr>])"
proof -
  let ?pool' = "pool[unat i := pool ! 0]"
  have t: "tiling iter state pool sol" and ev: "list_all even_piece (take 6 pool)"
    using inv by (simp_all add: parity_inv_def)
  have len: "length pool = 7" using t by (simp add: tiling_def good_pool_def)
  have lt: "iter < NUM_PIECES" using i by auto
  then have Suc: "unat (iter + 1) = Suc (unat iter)" by (rule unat_plus1)
  have le: "unat iter \<le> unat i" "unat i < 7"
    using i by (simp_all add: word_le_nat_alt unat_slot)
  have even_nth: "even_piece (pool ! k)" if "k < 6" for k
    using ev that len by (simp add: list_all_length)
  have "even_piece (?pool' ! n)" if "n < 6" for n
  proof (cases "n = unat i")
    case True
    then show ?thesis using even_nth [of 0] len that by simp
  next
    case False
    then show ?thesis using even_nth [OF that] by simp
  qed
  then have ev': "list_all even_piece (take 6 ?pool')"
    by (simp add: list_all_length)
  have d: "dark (state OR pm) = dark state + dark pm" using fit by (rule dark_disjoint)
  have t': "tiling (iter + 1) (state OR pm) ?pool' (sol[unat iter := \<lparr>piece_mask = pm\<rparr>])"
    using t i pm fit by (rule tiling_step)
  show ?thesis
  proof (cases "unat i = 6")
    case False
    then have k: "unat i < 6" using le by simp
    then have "even (dark pm)"
      using even_nth [OF k] pm by (simp add: even_piece_def list_all_iff)
    moreover have "?pool' ! 6 = pool ! 6" using False by simp
    moreover have "unat (iter + 1) \<le> 6" using Suc le k by simp
    ultimately show ?thesis using inv t' ev' d
      by (simp add: parity_inv_def split: if_splits)
  next
    case True
    then have 6: "?pool' ! 6 = pool ! 0" using len by simp
    have e0: "even_piece (pool ! 0)" using even_nth [of 0] by simp
    have pm6: "pm \<in> set (placements (pool ! 6))" using pm True by simp
    show ?thesis
    proof (cases "odd_piece (pool ! 6) \<and> even (dark state)")
      case True
      then have "odd (dark pm)" using pm6 by (simp add: odd_piece_def list_all_iff)
      then have "odd (dark (state OR pm))" using True d by simp
      then show ?thesis using t' ev' 6 e0 by (simp add: parity_inv_def)
    next
      case False
      then have "even_piece (pool ! 6)" "odd (dark state)"
        using inv by (simp_all add: parity_inv_def split: if_splits)
      then have "odd (dark (state OR pm))"
        using pm6 d by (simp add: even_piece_def list_all_iff)
      then show ?thesis using t' ev' 6 e0 by (simp add: parity_inv_def)
    qed
  qed
qed

lemma parity_pre:
  assumes "parity_inv iter state pool sol" and "length sol' = length sol"
    and "take (unat iter) sol' = take (unat iter) sol"
  shows "parity_inv iter state pool sol'"
proof -
  have "tiling iter state pool sol" using assms(1) by (simp add: parity_inv_def)
  then have "tiling iter state pool sol'" using assms(2,3) by (rule tiling_pre)
  then show ?thesis using assms(1) unfolding parity_inv_def by blast
qed

lemma parity_not_full: "\<not> parity_inv NUM_PIECES state pool sol"
proof
  assume a: "parity_inv NUM_PIECES state pool sol"
  then have "tiling NUM_PIECES state pool sol" by (simp add: parity_inv_def)
  then have "state = board" by (rule tiling_full)
  then have "even (dark state)" by (simp add: dark_board)
  then show False using a by (simp add: parity_inv_def NUM_PIECES_def split: if_splits)
qed

lemma recurse_parity:
  assumes "parity_inv iter state (pieces_available s) (solution s)"
  shows "reported_since s (recurse iter state s) = []"
proof -
  have "extends (call_inv parity_inv) (unat iter) s (recurse iter state s)"
    using parity_step parity_pre assms by (rule recurse_extends)
  then have inv: "call_inv parity_inv c"
    if "c \<in> set (calls_since s (recurse iter state s))" for c
    using that by (rule extends_calls_since)
  have "c_iter c \<noteq> NUM_PIECES" if "c \<in> set (calls_since s (recurse iter state s))" for c
  proof
    assume "c_iter c = NUM_PIECES"
    moreover have "parity_inv (c_iter c) (c_state c) (c_pieces_available c) (c_solution c)"
      using that by (rule inv)
    ultimately have "parity_inv NUM_PIECES (c_state c) (c_pieces_available c) (c_solution c)"
      by simp
    then show False by (simp add: parity_not_full)
  qed
  then show ?thesis by (simp add: reported_since_def filter_empty_conv)
qed

lemma table_parity:
  assumes "wf_avail avail"
  shows "list_all even_piece (take 6 (calc_pieces_available avail))"
    and "odd_piece (calc_pieces_available avail ! 6)"
proof -
  let ?T = "calc_pieces_available avail"
  have len: "length ?T = 7"
    using arg_cong [OF table_counts [OF assms], of length] by simp
  have e: "list_all (\<lambda>os. list_all (\<lambda>pm. even (dark pm)) (concat (map shifts os)))
          (take 6 (map orientations ?T))"
    unfolding table_orientations [OF assms]
    by (simp add: placements_evals dark_def checker_def popcount_evals)
  have o: "list_all (\<lambda>pm. odd (dark pm)) (concat (map shifts (map orientations ?T ! 6)))"
    unfolding table_orientations [OF assms]
    by (simp add: placements_evals dark_def checker_def popcount_evals)
  from e have "list_all (\<lambda>os. list_all (\<lambda>pm. even (dark pm)) (concat (map shifts os)))
          (map orientations (take 6 ?T))"
    by (simp only: take_map)
  then show "list_all even_piece (take 6 ?T)"
    by (simp add: list_all_iff even_piece_def placements_def)
  from o len show "odd_piece (?T ! 6)"
    by (simp add: odd_piece_def placements_def)
qed

lemma main_call_parity:
  assumes "wf_avail avail" and "length solution0 = 7"
  shows "parity_inv 0 0 (calc_pieces_available avail) solution0"
  using main_call_tiling [OF assms] table_parity [OF assms(1)]
  by (simp add: parity_inv_def dark_def popcount_evals)

lemma main_reports_nothing:
  assumes "wf_avail avail" and "length solution0 = 7"
  shows "reported (main avail solution0) = []"
proof -
  let ?s0 = "\<lparr>pieces_available = calc_pieces_available avail, solution = solution0,
              calls = [], stdout = [], stderr = [], exited = None\<rparr>"
  have "reported_since ?s0 (recurse 0 0 ?s0) = []"
    using main_call_parity [OF assms] by (intro recurse_parity) simp
  then have "reported (recurse 0 0 ?s0) = []"
    by (simp add: reported_since_def reported_def calls_since_def)
  then show ?thesis by (simp add: main_def reported_def Let_def)
qed


section \<open>The mirror step\<close>

lemma bit_15: "bit (15 :: u32) n \<longleftrightarrow> n < 4"
proof -
  have "(15 :: u32) = mask 4" by (simp add: mask_eq_exp_minus_1)
  moreover have "bit (mask 4 :: u32) n \<longleftrightarrow> n < 4" by (simp only: bit_mask_iff) auto
  ultimately show ?thesis by (simp only:)
qed

lemma bit_15_int: "bit (15 :: int) n \<longleftrightarrow> n < 4"
proof -
  have "(15 :: int) = mask 4" by (simp add: mask_eq_exp_minus_1)
  moreover have "bit (mask 4 :: int) n \<longleftrightarrow> n < 4" by (simp only: bit_mask_iff) auto
  ultimately show ?thesis by (simp only:)
qed

lemma bit_row: "bit (row r m) j \<longleftrightarrow> j < 4 \<and> bit m (j + 4 * r)"
  unfolding row_def bit_and_iff bit_drop_bit_eq bit_15 by (auto simp: add.commute)

lemma rows_eqI:
  assumes "\<And>r. r < 8 \<Longrightarrow> row r a = row r b"
  shows "a = b"
proof (rule bit_eqI)
  fix n
  assume "possible_bit TYPE(u32) n"
  then have n: "n < 32" by simp
  then have "n div 4 < 8" by simp
  then have "bit (row (n div 4) a) (n mod 4) = bit (row (n div 4) b) (n mod 4)"
    using assms by simp
  then show "bit a n \<longleftrightarrow> bit b n" by (simp add: bit_row)
qed

lemma horiz_mask_15: "horiz_mask = 15"
  by (simp add: horiz_mask_def W_def)

text \<open>One pass of the mirror loop swaps two rows.\<close>

lemma mirror_step_bit:
  assumes L: "unat (W * l) = 4 * L" and T: "unat (W * ((piece_h - 1) - l)) = 4 * T"
    and lt: "L < T" "T < 8" and j: "j < 4" and r: "r < 8"
  shows "bit (mirror_step piece_h l m) (j + 4 * r) \<longleftrightarrow>
     bit m (j + 4 * (if r = L then T else if r = T then L else r))"
proof -
  consider "r = L" | "r = T" | "r \<noteq> L" "r \<noteq> T" by blast
  then show ?thesis
  proof cases
    case 1
    then show ?thesis using lt j
      by (auto simp: mirror_step_def Let_def L T horiz_mask_15 bit_or_iff bit_and_iff bit_not_iff
        bit_push_bit_iff bit_drop_bit_eq bit_15_int ac_simps dest: bit_imp_le_length)
  next
    case 2
    then show ?thesis using lt j
      by (auto simp: mirror_step_def Let_def L T horiz_mask_15 bit_or_iff bit_and_iff bit_not_iff
        bit_push_bit_iff bit_drop_bit_eq bit_15_int ac_simps dest: bit_imp_le_length)
  next
    case 3
    then have "\<not> (4 * L \<le> j + 4 * r \<and> j + 4 * r - 4 * L < 4)"
      "\<not> (4 * T \<le> j + 4 * r \<and> j + 4 * r - 4 * T < 4)"
      using j by auto
    then show ?thesis using 3 lt j r
      by (auto simp: mirror_step_def Let_def L T horiz_mask_15 bit_or_iff bit_and_iff bit_not_iff
        bit_push_bit_iff bit_drop_bit_eq bit_15_int dest: bit_imp_le_length)
  qed
qed

lemma row_mirror_step:
  assumes "unat (W * l) = 4 * L" and "unat (W * ((piece_h - 1) - l)) = 4 * T"
    and "L < T" "T < 8" and "r < 8"
  shows "row r (mirror_step piece_h l m) = row (if r = L then T else if r = T then L else r) m"
proof (rule bit_eqI)
  fix j
  show "bit (row r (mirror_step piece_h l m)) j \<longleftrightarrow>
        bit (row (if r = L then T else if r = T then L else r) m) j"
    using mirror_step_bit [OF assms(1-4) _ assms(5), of j m]
    by (cases "j < 4") (simp_all only: bit_row simp_thms)
qed


lemma unat_of_nat_small: "n < 32 \<Longrightarrow> unat (of_nat n :: u32) = n"
  by (simp only: unat_of_nat) simp

lemma mirror_shifts:
  assumes "k < unat h div 2" and "unat h \<le> 8"
  shows "unat (W * of_nat k) = 4 * k"
    and "unat (W * ((h - 1) - of_nat k)) = 4 * (unat h - 1 - k)"
proof -
  have 1: "W * of_nat k = (of_nat (4 * k) :: u32)" by (simp add: W_def)
  have "4 * k < 32" using assms by simp
  then show "unat (W * of_nat k) = 4 * k"
    unfolding 1 by (rule unat_of_nat_small)
  have "(of_nat (unat h - 1 - k) :: u32) = of_nat (unat h - 1) - of_nat k"
    using assms by (intro of_nat_diff) simp
  also have "(of_nat (unat h - 1) :: u32) = of_nat (unat h) - of_nat 1"
    using assms by (intro of_nat_diff) simp
  finally have "(h - 1) - of_nat k = (of_nat (unat h - 1 - k) :: u32)" by simp
  then have 2: "W * ((h - 1) - of_nat k) = (of_nat (4 * (unat h - 1 - k)) :: u32)"
    by (simp add: W_def)
  have "4 * (unat h - 1 - k) < 32" using assms by simp
  then show "unat (W * ((h - 1) - of_nat k)) = 4 * (unat h - 1 - k)"
    unfolding 2 by (rule unat_of_nat_small)
qed

lemma mirror_rows_prefix:
  assumes "unat h \<le> 8" and "k \<le> unat h div 2" and "r < 8"
  shows "row r (fold (mirror_step h) (map of_nat [0..<k]) m) =
         row (if r < k \<or> (unat h - 1 - k < r \<and> r < unat h) then unat h - 1 - r else r) m"
  using assms(2,3)
proof (induction k arbitrary: r)
  case 0
  then show ?case by auto
next
  case (Suc k)
  let ?H = "unat h" and ?m' = "fold (mirror_step h) (map of_nat [0..<k]) m"
  let ?T = "unat h - 1 - k"
  have k: "k < ?H div 2" "k \<le> ?H div 2" using Suc.prems by simp_all
  have lt: "k < ?T" "?T < 8" using k assms(1) by auto
  have step: "row r (mirror_step h (of_nat k) ?m') =
              row (if r = k then ?T else if r = ?T then k else r) ?m'"
    using mirror_shifts [OF k(1) assms(1)] lt Suc.prems(2) by (rule row_mirror_step)
  have IH: "row r' ?m' = row (if r' < k \<or> (?T < r' \<and> r' < ?H) then ?H - 1 - r' else r') m"
    if "r' < 8" for r'
    using Suc.IH [OF k(2) that] .
  have "row r (fold (mirror_step h) (map of_nat [0..<Suc k]) m) =
        row r (mirror_step h (of_nat k) ?m')" by simp
  also have "\<dots> = row (if r < Suc k \<or> (?H - 1 - Suc k < r \<and> r < ?H) then ?H - 1 - r else r) m"
  proof -
    consider "r = k" | "r = ?T" | "r \<noteq> k" "r \<noteq> ?T" by blast
    then show ?thesis
    proof cases
      case 1
      then show ?thesis using step IH [of ?T] lt by simp
    next
      case 2
      then have "row r (mirror_step h (of_nat k) ?m') = row k m"
        using step IH [of k] lt by auto
      moreover have "?H - 1 - r = k" using 2 lt by auto
      moreover have "?H - 1 - Suc k < r \<and> r < ?H" using 2 lt by auto
      ultimately show ?thesis by simp
    next
      case 3
      then have "(r < Suc k \<or> (?H - 1 - Suc k < r \<and> r < ?H)) \<longleftrightarrow>
                 (r < k \<or> (?T < r \<and> r < ?H))"
        by auto
      then show ?thesis using step IH [OF Suc.prems(2)] 3 by simp
    qed
  qed
  finally show ?case .
qed

lemma mirror_rows:
  assumes "unat h \<le> 8" and "r < 8"
  shows "row r (mirror h m) =
         (if r < unat h div 2 \<or> (unat h - 1 - unat h div 2 < r \<and> r < unat h)
          then row (unat h - 1 - r) m else row r m)"
proof -
  have "unat (h div 2) = unat h div 2" by (simp add: unat_div)
  then have "mirror h m = fold (mirror_step h) (map of_nat [0..<unat h div 2]) m"
    by (simp add: mirror_def range_lt_def)
  then show ?thesis
    using mirror_rows_prefix [OF assms(1) order_refl assms(2), of m] by simp
qed

lemma mirror_rows_flip:
  assumes "unat h \<le> 8" and "r < 8"
  shows "row r (mirror h m) = row (if r < unat h then unat h - 1 - r else r) m"
proof -
  define k where "k = unat h div 2"
  have H: "unat h = 2 * k \<or> unat h = 2 * k + 1" unfolding k_def by arith
  have "unat h - 1 - r = r"
    if "r < unat h" "\<not> (r < k \<or> (unat h - 1 - k < r \<and> r < unat h))"
    using that H by auto
  then show ?thesis using mirror_rows [OF assms, of m] unfolding k_def by auto
qed

lemma mirror_involution:
  assumes "unat h \<le> 8"
  shows "mirror h (mirror h m) = m"
proof (rule rows_eqI)
  fix r :: nat
  assume r: "r < 8"
  let ?f = "\<lambda>r. if r < unat h then unat h - 1 - r else r"
  have "?f r < 8" using r assms by auto
  then have "row r (mirror h (mirror h m)) = row (?f (?f r)) m"
    using mirror_rows_flip [OF assms r, of "mirror h m"] mirror_rows_flip [OF assms, of "?f r" m]
    by simp
  moreover have "?f (?f r) = r" by auto
  ultimately show "row r (mirror h (mirror h m)) = row r m" by simp
qed

lemma k_body_mask:
  "k_body (a, idx, m, w, h) = (fst (k_body (a, idx, m, w, h)),
     fst (snd (k_body (a, idx, m, w, h))), mirror h m, w, h)"
  by (simp add: k_body_def Let_def split: prod.splits)

lemma j_body_rotates_unmirrored:
  assumes "unat h \<le> 8"
  shows "snd (snd (j_body (a, idx, m, w, h))) = (rotate m w h, h, w)"
proof -
  obtain a1 idx1 where 1: "k_body (a, idx, m, w, h) = (a1, idx1, mirror h m, w, h)"
    using k_body_mask [of a idx m w h] by blast
  obtain a2 idx2 where 2: "k_body (a1, idx1, mirror h m, w, h) = (a2, idx2, mirror h (mirror h m), w, h)"
    using k_body_mask [of a1 idx1 "mirror h m" w h] by blast
  have "fold (\<lambda>k. k_body) (range_lt 2) (a, idx, m, w, h) = (a2, idx2, m, w, h)"
    using 1 2 mirror_involution [OF assms, of m] by (simp add: range_evals)
  then show ?thesis by (simp add: j_body_def)
qed


section \<open>Overlapping solutions and the exit status\<close>

lemma range_lt_iff: "i \<in> set (range_lt n) \<longleftrightarrow> i < n"
proof -
  have "range_lt n = range_from 0 n" by (simp add: range_lt_def range_from_def)
  then show ?thesis by (simp add: range_from_iff)
qed

lemma unat_of_nat_below: "k < unat (n :: u32) \<Longrightarrow> unat (of_nat k :: u32) = k"
proof -
  assume "k < unat n"
  then have "k < 2 ^ 32" using unat_lt32 [of n] by simp
  then show ?thesis by (simp add: unat_of_nat)
qed

lemma range_lt_distinct: "distinct (range_lt n)"
proof -
  have "inj_on (of_nat :: nat \<Rightarrow> u32) (set [0..<unat n])"
  proof (rule inj_onI)
    fix a b
    assume a: "a \<in> set [0..<unat n]" and b: "b \<in> set [0..<unat n]"
      and eq: "(of_nat a :: u32) = of_nat b"
    have "a < unat n" "b < unat n" using a b by simp_all
    then have "unat (of_nat a :: u32) = a" "unat (of_nat b :: u32) = b"
      by (simp_all add: unat_of_nat_below)
    then show "a = b" using eq by metis
  qed
  moreover have "distinct [0..<unat n]" by (rule distinct_upt)
  ultimately have "distinct (map (of_nat :: nat \<Rightarrow> u32) [0..<unat n])"
    by (simp only: distinct_map simp_thms)
  then show ?thesis by (simp only: range_lt_def)
qed

lemma two_in_filter:
  assumes "distinct xs"
  shows "2 \<le> length (filter P xs) \<longleftrightarrow> (\<exists>a \<in> set xs. \<exists>b \<in> set xs. a \<noteq> b \<and> P a \<and> P b)"
proof -
  let ?A = "set (filter P xs)"
  have "distinct (filter P xs)" using assms by simp
  then have "length (filter P xs) = card ?A"
    by (rule distinct_card [symmetric])
  moreover have "card ?A \<le> Suc 0 \<longleftrightarrow> (\<forall>a \<in> ?A. \<forall>b \<in> ?A. a = b)"
    by (rule card_le_Suc0_iff_eq) simp
  ultimately have "2 \<le> length (filter P xs) \<longleftrightarrow> \<not> (\<forall>a \<in> ?A. \<forall>b \<in> ?A. a = b)"
    by auto
  then show ?thesis by auto
qed

lemma covers_bit:
  assumes "x < W" and "y < H"
  shows "covers sol x y i \<longleftrightarrow> bit (piece_mask (sol ! unat i)) (unat x + 4 * unat y)"
proof -
  have xy: "unat x < 4" "unat y < 7"
    using assms by (simp_all add: W_def H_def word_less_nat_alt)
  then have "unat x + unat (4 :: u32) * unat y < 2 ^ LENGTH(32)" by simp
  then have "unat (x + 4 * y) = unat x + 4 * unat y"
    by (simp add: unat_word_ariths)
  then show ?thesis
    by (simp add: covers_def bit_at_def W_def push_bit_of_1 and_exp_eq_0_iff_not_bit)
qed

lemma overlapping_iff:
  "overlapping sol NUM_PIECES \<longleftrightarrow>
     (\<exists>i<7. \<exists>j<7. i \<noteq> j \<and>
        (\<exists>n<28. bit (piece_mask (sol ! i)) n \<and> bit (piece_mask (sol ! j)) n))"
proof
  assume "overlapping sol NUM_PIECES"
  then obtain x y where y: "y < H" and x: "x < W"
    and 2: "2 \<le> length (filter (covers sol x y) (range_lt NUM_PIECES))"
    by (auto simp: overlapping_def overlap_in_row_def overlap_at_def list_ex_iff range_lt_iff)
  from 2 obtain i j where ij: "i < NUM_PIECES" "j < NUM_PIECES" "i \<noteq> j"
    and c: "covers sol x y i" "covers sol x y j"
    using two_in_filter [OF range_lt_distinct, of "covers sol x y" NUM_PIECES]
    by (auto simp: range_lt_iff)
  let ?n = "unat x + 4 * unat y"
  have "unat i < 7" "unat j < 7" "unat i \<noteq> unat j"
    using ij by (simp_all add: unat_slot word_unat_eq_iff)
  moreover have "?n < 28"
    using x y by (simp add: W_def H_def word_less_nat_alt)
  moreover have "bit (piece_mask (sol ! unat i)) ?n" "bit (piece_mask (sol ! unat j)) ?n"
    using c by (simp_all add: covers_bit [OF x y])
  ultimately show "\<exists>i<7. \<exists>j<7. i \<noteq> j \<and>
        (\<exists>n<28. bit (piece_mask (sol ! i)) n \<and> bit (piece_mask (sol ! j)) n)"
    by blast
next
  assume "\<exists>i<7. \<exists>j<7. i \<noteq> j \<and>
        (\<exists>n<28. bit (piece_mask (sol ! i)) n \<and> bit (piece_mask (sol ! j)) n)"
  then obtain i j n where ij: "i < 7" "j < 7" "i \<noteq> j" and n: "n < 28"
    and b: "bit (piece_mask (sol ! i)) n" "bit (piece_mask (sol ! j)) n"
    by blast
  let ?x = "of_nat (n mod 4) :: u32" and ?y = "of_nat (n div 4) :: u32"
  let ?i = "of_nat i :: u32" and ?j = "of_nat j :: u32"
  have u: "unat ?x = n mod 4" "unat ?y = n div 4" "unat ?i = i" "unat ?j = j"
    using ij n by (simp_all add: unat_of_nat)
  have xy: "?x < W" "?y < H" and ij': "?i < NUM_PIECES" "?j < NUM_PIECES" "?i \<noteq> ?j"
    using u ij n by (auto simp: W_def H_def NUM_PIECES_def word_less_nat_alt)
  have "covers sol ?x ?y ?i" "covers sol ?x ?y ?j"
    using b u by (simp_all add: covers_bit [OF xy])
  moreover have "?i \<in> set (range_lt NUM_PIECES)" "?j \<in> set (range_lt NUM_PIECES)"
    using ij' by (simp_all add: range_lt_iff)
  ultimately have "\<exists>a \<in> set (range_lt NUM_PIECES). \<exists>b \<in> set (range_lt NUM_PIECES).
      a \<noteq> b \<and> covers sol ?x ?y a \<and> covers sol ?x ?y b"
    using ij'(3) by blast
  then have "2 \<le> length (filter (covers sol ?x ?y) (range_lt NUM_PIECES))"
    by (simp only: two_in_filter [OF range_lt_distinct])
  moreover have "?y \<in> set (range_lt H)" "?x \<in> set (range_lt W)"
    using xy by (simp_all add: range_lt_iff)
  ultimately show "overlapping sol NUM_PIECES"
    unfolding overlapping_def overlap_in_row_def overlap_at_def list_ex_iff by blast
qed

lemma tiling_not_overlapping:
  assumes "tiling NUM_PIECES state pool sol"
  shows "\<not> overlapping sol NUM_PIECES"
proof
  assume "overlapping sol NUM_PIECES"
  then obtain i j n where ij: "i < 7" "j < 7" "i \<noteq> j"
    and b: "bit (piece_mask (sol ! i)) n" "bit (piece_mask (sol ! j)) n"
    unfolding overlapping_iff by blast
  from tiling_full [OF assms] have "length sol = 7" "disjoint_masks (map piece_mask sol)"
    by simp_all
  then have "piece_mask (sol ! i) AND piece_mask (sol ! j) = 0"
    using disjoint_masks_nth [of "map piece_mask sol" i j] ij by simp
  then have "\<not> bit (piece_mask (sol ! i) AND piece_mask (sol ! j)) n" by simp
  then show False using b by (simp add: bit_and_iff)
qed

lemma recurse_no_exit:
  assumes "tiling iter state (pieces_available s) (solution s)" and "exited s = None"
  shows "exited (recurse iter state s) = None"
proof (rule ccontr)
  assume e: "exited (recurse iter state s) \<noteq> None"
  have ext: "extends (call_inv tiling) (unat iter) s (recurse iter state s)"
    using assms(1) by (rule recurse_tiling)
  then obtain new where new: "calls (recurse iter state s) = calls s @ new"
    "list_all (call_inv tiling) new" "list_ex bad_call new"
    using assms(2) e by (auto simp: extends_def)
  then obtain c where c: "c \<in> set new" "bad_call c" by (auto simp: list_ex_iff)
  then have "tiling NUM_PIECES (c_state c) (c_pieces_available c) (c_solution c)"
    using new(2) by (auto simp: list_all_iff bad_call_def)
  then show False using c(2) tiling_not_overlapping by (auto simp: bad_call_def)
qed

lemma main_exit_code:
  assumes "wf_avail avail" and "length solution0 = 7"
  shows "exited (main avail solution0) = Some 0"
proof -
  let ?s0 = "\<lparr>pieces_available = calc_pieces_available avail, solution = solution0,
              calls = [], stdout = [], stderr = [], exited = None\<rparr>"
  have "exited (recurse 0 0 ?s0) = None"
    using main_call_tiling [OF assms] by (intro recurse_no_exit) simp_all
  then show ?thesis by (simp add: main_def Let_def)
qed


section \<open>Mirror images among the pieces\<close>

lemma mirror_twins:
  assumes "wf_avail avail"
  shows "set (orientations (calc_pieces_available avail ! 2)) =
         set (orientations (calc_pieces_available avail ! 3))"
    and "set (orientations (calc_pieces_available avail ! 4)) =
         set (orientations (calc_pieces_available avail ! 5))"
proof -
  have len: "length (calc_pieces_available avail) = 7"
    using arg_cong [OF table_counts [OF assms], of length] by simp
  have n: "orientations (calc_pieces_available avail ! i) =
           map orientations (calc_pieces_available avail) ! i" if "i < 7" for i
    using that len by simp
  show "set (orientations (calc_pieces_available avail ! 2)) =
         set (orientations (calc_pieces_available avail ! 3))"
    and "set (orientations (calc_pieces_available avail ! 4)) =
         set (orientations (calc_pieces_available avail ! 5))"
    unfolding n [of 2, simplified] n [of 3, simplified] n [of 4, simplified] n [of 5, simplified]
      table_orientations [OF assms]
    by auto
qed


section \<open>The calls made along a branch\<close>

lemma recurse_frame: "extends (\<lambda>c. True) (unat iter) s (recurse iter state s)"
  by (rule recurse_extends [where I = "\<lambda>iter state pool sol. True"]) simp_all

lemma recurse_calls: "\<exists>new. calls (recurse iter state s) = calls s @ new"
  using recurse_frame [of iter s state] by (auto simp: extends_def)

lemma try_mask_calls: "\<exists>new. calls (try_mask (recurse iter') iter state pm v) = calls v @ new"
  using recurse_calls [of iter' "state OR pm"
      "v\<lparr>solution := (solution v)[unat iter := \<lparr>piece_mask = pm\<rparr>]\<rparr>"]
  by (auto simp: try_mask_def)

lemma slot_body_calls:
  "\<exists>new. calls (slot_body (recurse iter') iter state i t) = calls t @ new"
proof (cases "exited t = None")
  case False
  then show ?thesis by (simp add: slot_body_alt)
next
  case True
  let ?s1 = "t\<lparr>pieces_available := (pieces_available t)[unat i := pieces_available t ! 0]\<rparr>"
  have "\<exists>new. calls (fold (try_mask (recurse iter') iter state) pms ?s1) = calls t @ new" for pms
  proof (induction pms rule: rev_induct)
    case Nil
    then show ?case by simp
  next
    case (snoc pm pms)
    then obtain n where "calls (fold (try_mask (recurse iter') iter state) pms ?s1) = calls t @ n"
      by blast
    then show ?case
      using try_mask_calls [of iter' iter state pm
          "fold (try_mask (recurse iter') iter state) pms ?s1"]
      by auto
  qed
  then show ?thesis using True by (auto simp: slot_body_alt Let_def)
qed

lemma recurse_logs_itself:
  "\<exists>rest. calls (recurse iter state s) =
     calls s @ \<lparr>c_iter = iter, c_state = state, c_pieces_available = pieces_available s,
                c_solution = solution s\<rparr> # rest"
proof (cases "iter = NUM_PIECES")
  case True
  then have "recurse iter state s = found_solution (log_call iter state s)"
    by (subst recurse.simps) simp
  then show ?thesis
    using found_solution_memory [of "log_call iter state s"]
    by (simp add: same_memory_def log_call_def)
next
  case False
  have "\<exists>n. calls (fold (slot_body (recurse (iter + 1)) iter state) is t) = calls t @ n" for "is" t
  proof (induction "is" rule: rev_induct)
    case Nil
    then show ?case by simp
  next
    case (snoc i "is")
    then obtain n where "calls (fold (slot_body (recurse (iter + 1)) iter state) is t) = calls t @ n"
      by blast
    then show ?case
      using slot_body_calls [of "iter + 1" iter state i
          "fold (slot_body (recurse (iter + 1)) iter state) is t"]
      by auto
  qed
  moreover have "recurse iter state s =
      fold (slot_body (recurse (iter + 1)) iter state) (range_from iter NUM_PIECES)
        (log_call iter state s)"
    using False by (subst recurse.simps) simp
  ultimately obtain n where "calls (recurse iter state s) = calls (log_call iter state s) @ n"
    by metis
  then show ?thesis by (simp add: log_call_def)
qed

lemma extends_no_exit:
  assumes "extends (call_inv tiling) k s s'" and "exited s = None"
  shows "exited s' = None"
proof (rule ccontr)
  assume "exited s' \<noteq> None"
  then obtain new where "list_all (call_inv tiling) new" "list_ex bad_call new"
    using assms by (auto simp: extends_def)
  then obtain c where "bad_call c" "tiling NUM_PIECES (c_state c) (c_pieces_available c) (c_solution c)"
    by (auto simp: list_all_iff list_ex_iff bad_call_def)
  then show False using tiling_not_overlapping by (auto simp: bad_call_def)
qed

lemma fold_reach:
  assumes "x \<in> set xs" and "Q s"
    and inv: "\<And>y t. y \<in> set xs \<Longrightarrow> Q t \<Longrightarrow> Q (f y t)"
    and hit: "\<And>t. Q t \<Longrightarrow> P (f x t)"
    and keep: "\<And>y t. P t \<Longrightarrow> P (f y t)"
  shows "P (fold f xs s)"
  using assms(1,2,3)
proof (induction xs arbitrary: s)
  case Nil
  then show ?case by simp
next
  case (Cons y ys)
  have kept: "P t \<Longrightarrow> P (fold f zs t)" for zs t
    by (induction zs arbitrary: t) (simp_all add: keep)
  show ?case
  proof (cases "x = y")
    case True
    then have "P (f y s)" using hit Cons.prems(2) by simp
    then show ?thesis using kept by simp
  next
    case False
    then have "x \<in> set ys" using Cons.prems(1) by simp
    moreover have "Q (f y s)" using Cons.prems(2,3) by simp
    ultimately have "P (fold f ys (f y s))"
      using Cons.prems(3) by (intro Cons.IH) simp_all
    then show ?thesis by simp
  qed
qed

lemma tiling_slot_extends:
  assumes t: "tiling iter state (pieces_available s) (solution s)" and lt: "iter < NUM_PIECES"
    and i: "iter \<le> i" "i < NUM_PIECES"
  shows "extends (call_inv tiling) (unat iter) s (slot_body (recurse (iter + 1)) iter state i s)"
proof (rule slot_body_extends [where I = tiling and pool = "pieces_available s"])
  have Suc: "unat (iter + 1) = Suc (unat iter)" using lt by (rule unat_plus1)
  show "extends (call_inv tiling) (Suc (unat iter)) u (recurse (iter + 1) st u)"
    if "tiling (iter + 1) st (pieces_available u) (solution u)" for st u
    using recurse_tiling [OF that] Suc by simp
qed (use t i in \<open>auto intro: tiling_step tiling_pre\<close>)


lemma tiling_try_extends:
  assumes t: "tiling iter state pool (solution v)" and i: "iter \<le> i" "i < NUM_PIECES"
    and pm: "pm \<in> set (placements (pool ! unat i))"
    and pool: "pieces_available v = pool[unat i := pool ! 0]"
  shows "extends (call_inv tiling) (unat iter) v (try_mask (recurse (iter + 1)) iter state pm v)"
proof (cases "exited v \<noteq> None \<or> pm AND state \<noteq> 0")
  case True
  then show ?thesis by (simp add: try_mask_def extends_refl)
next
  case False
  let ?v' = "v\<lparr>solution := (solution v)[unat iter := \<lparr>piece_mask = pm\<rparr>]\<rparr>"
  have "iter < NUM_PIECES" using i by auto
  then have Suc: "unat (iter + 1) = Suc (unat iter)" by (rule unat_plus1)
  have "tiling (iter + 1) (state OR pm) (pieces_available ?v') (solution ?v')"
    using tiling_step [OF t i pm] False pool by simp
  then have "extends (call_inv tiling) (Suc (unat iter)) ?v' (recurse (iter + 1) (state OR pm) ?v')"
    using recurse_tiling [of "iter + 1" "state OR pm" ?v'] Suc by simp
  then have "extends (call_inv tiling) (unat iter) ?v' (recurse (iter + 1) (state OR pm) ?v')"
    by (rule extends_Suc)
  then have b: "extends (call_inv tiling) (unat iter) ?v' (recurse (iter + 1) (state OR pm) ?v')" .
  have "calls ?v' = calls v @ [] \<and> list_all (call_inv tiling) []" by simp
  then have a: "extends (call_inv tiling) (unat iter) v ?v'"
    unfolding extends_def by (intro conjI exI [of _ "[]"]) simp_all
  have eq: "try_mask (recurse (iter + 1)) iter state pm v = recurse (iter + 1) (state OR pm) ?v'"
    using False by (simp add: try_mask_def)
  show ?thesis unfolding eq using a b by (rule extends_trans)
qed

text \<open>
  Completeness of one step of the search: a placement that fits is tried, and the calls
  made below it are calls of the search.
\<close>

lemma recurse_child:
  assumes t: "tiling iter state (pieces_available s) (solution s)" and e: "exited s = None"
    and i: "iter \<le> i" "i < NUM_PIECES"
    and pm: "pm \<in> set (placements (pieces_available s ! unat i))" and fit: "pm AND state = 0"
  obtains u :: world where "exited u = None"
    and "pieces_available u = (pieces_available s)[unat i := pieces_available s ! 0]"
    and "tiling (iter + 1) (state OR pm) (pieces_available u) (solution u)"
    and "masks (solution u) (Suc (unat iter)) = masks (solution s) (unat iter) @ [pm]"
    and "set (calls_since u (recurse (iter + 1) (state OR pm) u))
           \<subseteq> set (calls_since s (recurse iter state s))"
proof -
  let ?k = "unat iter" and ?C = "call_inv tiling" and ?R = "recurse (iter + 1)"
  let ?pool = "pieces_available s"
  let ?pool' = "?pool[unat i := ?pool ! 0]"
  let ?st' = "state OR pm"
  let ?s0 = "log_call iter state s"
  define U where "U u \<longleftrightarrow> exited u = None \<and> pieces_available u = ?pool' \<and>
      tiling (iter + 1) ?st' (pieces_available u) (solution u) \<and>
      masks (solution u) (Suc ?k) = masks (solution s) ?k @ [pm]" for u :: world
  define P where "P v \<longleftrightarrow>
      (\<exists>u n1 n2. U u \<and> calls u = calls s @ n1 \<and> calls v = calls (?R ?st' u) @ n2)" for v :: world
  define Q where "Q v \<longleftrightarrow> extends ?C ?k s v \<and> exited v = None" for v :: world
  have lt: "iter < NUM_PIECES" using i by auto
  then have ne: "iter \<noteq> NUM_PIECES" and k: "?k < 7" by (auto simp: unat_slot)
  have len: "length (solution s) = 7" using t by (simp add: tiling_def)
  have Q_facts: "pieces_available v = ?pool" "tiling iter state ?pool (solution v)"
      "take ?k (solution v) = take ?k (solution s)" "\<exists>n. calls v = calls s @ n"
    if "Q v" for v
  proof -
    from that have x: "extends ?C ?k s v" "exited v = None" by (simp_all add: Q_def)
    then show "pieces_available v = ?pool" "take ?k (solution v) = take ?k (solution s)"
      "\<exists>n. calls v = calls s @ n"
      by (auto simp: extends_def)
    from x have "length (solution v) = length (solution s)" by (simp add: extends_def)
    with t show "tiling iter state ?pool (solution v)"
      using \<open>take ?k (solution v) = take ?k (solution s)\<close> by (rule tiling_pre)
  qed
  have Q0: "Q ?s0" using e t by (simp add: Q_def extends_def log_call_def)
  have slot_inv: "Q (slot_body ?R iter state y v)"
    if "y \<in> set (range_from iter NUM_PIECES)" "Q v" for y v
  proof -
    have y: "iter \<le> y" "y < NUM_PIECES" using that(1) by (simp_all add: range_from_iff)
    have "tiling iter state (pieces_available v) (solution v)"
      using Q_facts [OF that(2)] by simp
    then have step: "extends ?C ?k v (slot_body ?R iter state y v)"
      using lt y by (rule tiling_slot_extends)
    have sv: "extends ?C ?k s v" "exited v = None"
      using that(2) by (simp_all add: Q_def)
    have a: "extends ?C ?k s (slot_body ?R iter state y v)"
      using sv(1) step by (rule extends_trans)
    then have "exited (slot_body ?R iter state y v) = None"
      using e by (rule extends_no_exit)
    with a show ?thesis by (simp add: Q_def)
  qed
  have slot_keep: "P (slot_body ?R iter state y v)" if "P v" for y v
  proof -
    from that obtain u n1 n2 where u: "U u" "calls u = calls s @ n1"
      "calls v = calls (?R ?st' u) @ n2"
      unfolding P_def by blast
    obtain n where "calls (slot_body ?R iter state y v) = calls v @ n"
      using slot_body_calls [of "iter + 1" iter state y v] by blast
    then have "calls (slot_body ?R iter state y v) = calls (?R ?st' u) @ (n2 @ n)"
      using u(3) by simp
    then show ?thesis using u(1,2) unfolding P_def by blast
  qed
  have slot_hit: "P (slot_body ?R iter state i v)" if "Q v" for v
  proof -
    note f = Q_facts [OF that]
    have ev: "exited v = None" using that by (simp add: Q_def)
    let ?s1 = "v\<lparr>pieces_available := ?pool'\<rparr>"
    define Q' where "Q' w \<longleftrightarrow> extends ?C ?k ?s1 w \<and> exited w = None" for w :: world
    have Q'_facts: "pieces_available w = ?pool'" "tiling iter state ?pool (solution w)"
      "take ?k (solution w) = take ?k (solution s)" "\<exists>n. calls w = calls s @ n"
      if "Q' w" for w
    proof -
      from that have x: "extends ?C ?k ?s1 w" "exited w = None" by (simp_all add: Q'_def)
      then show "pieces_available w = ?pool'" by (simp add: extends_def)
      from x f(3) show tk: "take ?k (solution w) = take ?k (solution s)"
        by (simp add: extends_def)
      from x f(4) show "\<exists>n. calls w = calls s @ n" by (auto simp: extends_def)
      from x have "length (solution w) = length (solution v)" by (simp add: extends_def)
      moreover have "take ?k (solution w) = take ?k (solution v)" using tk f(3) by simp
      ultimately show "tiling iter state ?pool (solution w)"
        by (rule tiling_pre [OF f(2)])
    qed
    have q1: "Q' ?s1" using ev by (simp add: Q'_def extends_refl)
    have q_inv: "Q' (try_mask ?R iter state pm' w)"
      if "pm' \<in> set (placements (?pool ! unat i))" "Q' w" for pm' w
    proof -
      have step: "extends ?C ?k w (try_mask ?R iter state pm' w)"
        using Q'_facts(2) [OF that(2)] i that(1) Q'_facts(1) [OF that(2)]
        by (rule tiling_try_extends)
      have sw: "extends ?C ?k ?s1 w" "exited w = None"
        using that(2) by (simp_all add: Q'_def)
      have a: "extends ?C ?k ?s1 (try_mask ?R iter state pm' w)"
        using sw(1) step by (rule extends_trans)
      have "exited ?s1 = None" using ev by simp
      with a have "exited (try_mask ?R iter state pm' w) = None"
        by (rule extends_no_exit)
      with a show ?thesis by (simp add: Q'_def)
    qed
    have p_hit: "P (try_mask ?R iter state pm w)" if "Q' w" for w
    proof -
      note g = Q'_facts [OF that]
      have ew: "exited w = None" using that by (simp add: Q'_def)
      let ?w' = "w\<lparr>solution := (solution w)[?k := \<lparr>piece_mask = pm\<rparr>]\<rparr>"
      have "length (solution w) = 7" using g(2) by (simp add: tiling_def)
      then have "masks (solution ?w') (Suc ?k) = masks (solution w) ?k @ [pm]"
        using k by (simp add: masks_update)
      moreover have "masks (solution w) ?k = masks (solution s) ?k"
        using g(3) by (simp add: masks_def)
      moreover have "tiling (iter + 1) ?st' (pieces_available ?w') (solution ?w')"
        using tiling_step [OF g(2) i pm fit] g(1) by simp
      ultimately have "U ?w'" using ew g(1) by (simp add: U_def)
      moreover have "try_mask ?R iter state pm w = ?R ?st' ?w'"
        using ew fit by (simp add: try_mask_def)
      moreover obtain n where "calls ?w' = calls s @ n" using g(4) by auto
      ultimately have "U ?w' \<and> calls ?w' = calls s @ n \<and>
          calls (try_mask ?R iter state pm w) = calls (?R ?st' ?w') @ []"
        by simp
      then show ?thesis unfolding P_def by blast
    qed
    have p_keep: "P (try_mask ?R iter state pm' w)" if "P w" for pm' w
    proof -
      from that obtain u n1 n2 where u: "U u" "calls u = calls s @ n1"
        "calls w = calls (?R ?st' u) @ n2"
        unfolding P_def by blast
      obtain n where "calls (try_mask ?R iter state pm' w) = calls w @ n"
        using try_mask_calls [of "iter + 1" iter state pm' w] by blast
      then have "calls (try_mask ?R iter state pm' w) = calls (?R ?st' u) @ (n2 @ n)"
        using u(3) by simp
      then show ?thesis using u(1,2) unfolding P_def by blast
    qed
    have "P (fold (try_mask ?R iter state) (placements (?pool ! unat i)) ?s1)"
      using pm q1 q_inv p_hit p_keep by (rule fold_reach [where P = P and Q = Q'])
    moreover have "calls (slot_body ?R iter state i v) =
        calls (fold (try_mask ?R iter state) (placements (?pool ! unat i)) ?s1)"
      using ev f(1) by (simp add: slot_body_alt Let_def)
    ultimately show ?thesis unfolding P_def by simp
  qed
  have "i \<in> set (range_from iter NUM_PIECES)" using i by (simp add: range_from_iff)
  then have "P (fold (slot_body ?R iter state) (range_from iter NUM_PIECES) ?s0)"
    using Q0 slot_inv slot_hit slot_keep by (rule fold_reach [where P = P and Q = Q])
  moreover have "recurse iter state s =
      fold (slot_body ?R iter state) (range_from iter NUM_PIECES) ?s0"
    using ne by (subst recurse.simps) simp
  ultimately obtain u n1 n2 where u: "U u" "calls u = calls s @ n1"
    "calls (recurse iter state s) = calls (?R ?st' u) @ n2"
    unfolding P_def by auto
  obtain new where new: "calls (?R ?st' u) = calls u @ new"
    using recurse_calls [of "iter + 1" ?st' u] by blast
  have "set (calls_since u (?R ?st' u)) \<subseteq> set (calls_since s (recurse iter state s))"
    using u(2,3) new by (auto simp: calls_since_def)
  moreover have "exited u = None" "pieces_available u = ?pool'"
    "tiling (iter + 1) ?st' (pieces_available u) (solution u)"
    "masks (solution u) (Suc ?k) = masks (solution s) ?k @ [pm]"
    using u(1) unfolding U_def by blast+
  ultimately show ?thesis by (rule that [rotated -1])
qed

lemma table_nth_orientations:
  assumes "wf_avail avail"
  shows "orientations (calc_pieces_available avail ! 0) = [(15, 4, 1), (4369, 1, 4)]"
    and "orientations (calc_pieces_available avail ! 1) = [(51, 2, 2)]"
    and "orientations (calc_pieces_available avail ! 2) =
           [(99, 3, 2), (54, 3, 2), (306, 2, 3), (561, 2, 3)]"
proof -
  have len: "length (calc_pieces_available avail) = 7"
    using arg_cong [OF table_counts [OF assms], of length] by simp
  have n: "orientations (calc_pieces_available avail ! 0) =
             map orientations (calc_pieces_available avail) ! 0"
    "orientations (calc_pieces_available avail ! 1) =
       map orientations (calc_pieces_available avail) ! 1"
    "orientations (calc_pieces_available avail ! 2) =
       map orientations (calc_pieces_available avail) ! 2"
    using len by simp_all
  show "orientations (calc_pieces_available avail ! 0) = [(15, 4, 1), (4369, 1, 4)]"
    and "orientations (calc_pieces_available avail ! 1) = [(51, 2, 2)]"
    and "orientations (calc_pieces_available avail ! 2) =
           [(99, 3, 2), (54, 3, 2), (306, 2, 3), (561, 2, 3)]"
    unfolding n table_orientations [OF assms] by simp_all
qed

lemma table_placements:
  assumes "wf_avail avail"
  shows "0xF \<in> set (placements (calc_pieces_available avail ! 0))"
    and "0x630 \<in> set (placements (calc_pieces_available avail ! 2))"
    and "0xF000 \<in> set (placements (calc_pieces_available avail ! 0))"
    and "0xF \<notin> set (placements (calc_pieces_available avail ! 1))"
    and "0x630 \<notin> set (placements (calc_pieces_available avail ! 1))"
  unfolding placements_def table_nth_orientations [OF assms]
  by (simp_all add: placements_evals)

lemma table_drop:
  assumes "length T = 7"
  shows "drop 2 (T[2 := T ! 0]) = [T ! 0, T ! 3, T ! 4, T ! 5, T ! 6]"
  using assms by (elim length7E) simp

lemma table_slot1:
  assumes "wf_avail avail"
  shows "calc_pieces_available avail ! 1 \<notin>
           set [calc_pieces_available avail ! 0, calc_pieces_available avail ! 3,
                calc_pieces_available avail ! 4, calc_pieces_available avail ! 5,
                calc_pieces_available avail ! 6]"
proof -
  let ?T = "calc_pieces_available avail"
  have len: "length ?T = 7"
    using arg_cong [OF table_counts [OF assms], of length] by simp
  have "po_n (?T ! i) = map po_n ?T ! i" if "i < 7" for i
    using that len by simp
  then have "po_n (?T ! 0) = 2" "po_n (?T ! 1) = 1" "po_n (?T ! 3) = 4" "po_n (?T ! 4) = 8"
    "po_n (?T ! 5) = 8" "po_n (?T ! 6) = 4"
    unfolding table_counts [OF assms] by simp_all
  then show ?thesis by auto
qed

text \<open>
  The branch of the run of \<^verbatim>\<open>main\<close> that places the first orientation of piece 0 at
  the origin and then, from slot 2, the first orientation of piece 2 one row up.
\<close>

lemma branch_depth2:
  assumes "wf_avail avail" and "length solution0 = 7"
  obtains u :: world where "exited u = None"
    and "pieces_available u = (calc_pieces_available avail)[2 := calc_pieces_available avail ! 0]"
    and "tiling 2 0x63F (pieces_available u) (solution u)"
    and "masks (solution u) 2 = [0xF, 0x630]"
    and "set (calls_since u (recurse 2 0x63F u)) \<subseteq> set (calls (main avail solution0))"
proof -
  let ?T = "calc_pieces_available avail"
  let ?s0 = "\<lparr>pieces_available = ?T, solution = solution0,
              calls = [], stdout = [], stderr = [], exited = None\<rparr>"
  have t0: "tiling 0 0 (pieces_available ?s0) (solution ?s0)"
    using main_call_tiling [OF assms] by simp
  have p0: "0xF \<in> set (placements (pieces_available ?s0 ! unat (0 :: u32)))"
    using table_placements(1) [OF assms(1)] by simp
  have m: "set (calls_since ?s0 (recurse 0 0 ?s0)) = set (calls (main avail solution0))"
    by (simp add: calls_since_def main_def Let_def)
  obtain u1 :: world where u1: "exited u1 = None" "pieces_available u1 = ?T"
    "tiling 1 0xF (pieces_available u1) (solution u1)"
    "masks (solution u1) 1 = [0xF]"
    "set (calls_since u1 (recurse 1 0xF u1)) \<subseteq> set (calls_since ?s0 (recurse 0 0 ?s0))"
  proof (rule recurse_child [OF t0 _ _ _ p0])
    show "exited ?s0 = None" by simp
    show "(0 :: u32) \<le> 0" by simp
    show "(0 :: u32) < NUM_PIECES" by (simp add: NUM_PIECES_def)
    show "(0xF :: u32) AND 0 = 0" by simp
    fix u :: world
    assume "exited u = None"
      "pieces_available u = (pieces_available ?s0)[unat (0 :: u32) := pieces_available ?s0 ! 0]"
      "tiling (0 + 1) (0 OR 0xF) (pieces_available u) (solution u)"
      "masks (solution u) (Suc (unat (0 :: u32))) = masks (solution ?s0) (unat (0 :: u32)) @ [0xF]"
      "set (calls_since u (recurse (0 + 1) (0 OR 0xF) u))
         \<subseteq> set (calls_since ?s0 (recurse 0 0 ?s0))"
    then show thesis by (intro that) (simp_all add: masks_def)
  qed
  have p1: "0x630 \<in> set (placements (pieces_available u1 ! unat (2 :: u32)))"
    using table_placements(2) [OF assms(1)] u1(2) by simp
  show thesis
  proof (rule recurse_child [OF u1(3) u1(1) _ _ p1])
    show "(1 :: u32) \<le> 2" by simp
    show "(2 :: u32) < NUM_PIECES" by (simp add: NUM_PIECES_def)
    show "(0x630 :: u32) AND 0xF = 0" by simp
    fix u :: world
    assume a: "exited u = None"
      "pieces_available u = (pieces_available u1)[unat (2 :: u32) := pieces_available u1 ! 0]"
      "tiling (1 + 1) (0xF OR 0x630) (pieces_available u) (solution u)"
      "masks (solution u) (Suc (unat (1 :: u32))) = masks (solution u1) (unat (1 :: u32)) @ [0x630]"
      "set (calls_since u (recurse (1 + 1) (0xF OR 0x630) u))
         \<subseteq> set (calls_since u1 (recurse 1 0xF u1))"
    have "masks (solution u) 2 = [0xF, 0x630]"
      using a(4) u1(4) by (simp add: numeral_2_eq_2)
    moreover have "set (calls_since u (recurse 2 0x63F u)) \<subseteq> set (calls (main avail solution0))"
      using a(5) u1(5) unfolding m by simp
    ultimately show thesis using a(1,2,3) u1(2) by (intro that) simp_all
  qed
qed

lemma call_logged:
  "\<lparr>c_iter = iter, c_state = state, c_pieces_available = pieces_available s,
     c_solution = solution s\<rparr> \<in> set (calls_since s (recurse iter state s))"
proof -
  obtain rest where "calls (recurse iter state s) =
      calls s @ \<lparr>c_iter = iter, c_state = state, c_pieces_available = pieces_available s,
                   c_solution = solution s\<rparr> # rest"
    using recurse_logs_itself [of iter state s] by blast
  then show ?thesis by (simp add: calls_since_def)
qed

lemma reach_depth2:
  assumes "wf_avail avail" and "length solution0 = 7"
  shows "\<exists>c \<in> set (calls (main avail solution0)).
      c_iter c = 2 \<and> c_state c = 0x63F \<and> masks (c_solution c) 2 = [0xF, 0x630] \<and>
      c_pieces_available c = (calc_pieces_available avail)[2 := calc_pieces_available avail ! 0]"
proof -
  obtain u :: world
    where u: "pieces_available u = (calc_pieces_available avail)[2 := calc_pieces_available avail ! 0]"
      "masks (solution u) 2 = [0xF, 0x630]"
      "set (calls_since u (recurse 2 0x63F u)) \<subseteq> set (calls (main avail solution0))"
    using branch_depth2 [OF assms] by metis
  let ?c = "\<lparr>c_iter = 2, c_state = 0x63F, c_pieces_available = pieces_available u,
             c_solution = solution u\<rparr>"
  have "?c \<in> set (calls (main avail solution0))"
    using call_logged [of 2 "0x63F" u] u(3) by blast
  then show ?thesis using u(1,2) by (intro bexI [where x = ?c]) simp_all
qed

lemma reach_depth3:
  assumes "wf_avail avail" and "length solution0 = 7"
  shows "\<exists>c \<in> set (calls (main avail solution0)).
      c_iter c = 3 \<and> masks (c_solution c) 3 = [0xF, 0x630, 0xF000]"
proof -
  let ?T = "calc_pieces_available avail"
  obtain u2 :: world
    where u2: "exited u2 = None" "pieces_available u2 = ?T[2 := ?T ! 0]"
      "tiling 2 0x63F (pieces_available u2) (solution u2)"
      "masks (solution u2) 2 = [0xF, 0x630]"
      "set (calls_since u2 (recurse 2 0x63F u2)) \<subseteq> set (calls (main avail solution0))"
    using branch_depth2 [OF assms] by metis
  have len: "length ?T = 7"
    using arg_cong [OF table_counts [OF assms(1)], of length] by simp
  have p2: "0xF000 \<in> set (placements (pieces_available u2 ! unat (2 :: u32)))"
    using table_placements(3) [OF assms(1)] u2(2) len by simp
  obtain u3 :: world where u3: "masks (solution u3) 3 = [0xF, 0x630, 0xF000]"
    "set (calls_since u3 (recurse 3 0xF63F u3)) \<subseteq> set (calls_since u2 (recurse 2 0x63F u2))"
  proof (rule recurse_child [OF u2(3) u2(1) _ _ p2])
    show "(2 :: u32) \<le> 2" by simp
    show "(2 :: u32) < NUM_PIECES" by (simp add: NUM_PIECES_def)
    show "(0xF000 :: u32) AND 0x63F = 0" by simp
    fix u :: world
    assume a: "masks (solution u) (Suc (unat (2 :: u32))) =
        masks (solution u2) (unat (2 :: u32)) @ [0xF000]"
      "set (calls_since u (recurse (2 + 1) (0x63F OR 0xF000) u))
         \<subseteq> set (calls_since u2 (recurse 2 0x63F u2))"
    have "masks (solution u) 3 = [0xF, 0x630, 0xF000]"
      using a(1) u2(4) by (simp add: numeral_3_eq_3)
    then show thesis using a(2) by (intro that) simp_all
  qed
  let ?c = "\<lparr>c_iter = 3, c_state = 0xF63F, c_pieces_available = pieces_available u3,
             c_solution = solution u3\<rparr>"
  have "?c \<in> set (calls (main avail solution0))"
    using call_logged [of 3 "0xF63F" u3] u3(2) u2(5) by blast
  then show ?thesis using u3(1) by (intro bexI [where x = ?c]) simp_all
qed

section \<open>Properties of the orientation generator\<close>

text \<open>
  C7.  For every well-formed initial content of the array \<^verbatim>\<open>avail\<close>, each of the seven
  orientation sets that \<^verbatim>\<open>calc_pieces_available\<close> produces has between 1 and 8
  members; the 2x2 square (index 1) has exactly 1 and the 1x4 straight piece
  (index 0) has exactly 2.
\<close>

theorem C7_orientation_counts:
  assumes "wf_avail avail"
  shows "(\<forall>i<7. 1 \<le> po_n (calc_pieces_available avail ! i) \<and>
                 po_n (calc_pieces_available avail ! i) \<le> 8) \<and>
         po_n (calc_pieces_available avail ! 1) = 1 \<and>
         po_n (calc_pieces_available avail ! 0) = 2"
proof -
  have len: "length (calc_pieces_available avail) = 7"
    using arg_cong [OF table_counts [OF assms], of length] by simp
  have n: "po_n (calc_pieces_available avail ! i) = [2, 1, 4, 4, 8, 8, 4] ! i" if "i < 7" for i
    using arg_cong [OF table_counts [OF assms], of "\<lambda>xs. xs ! i"] that len by simp
  have "1 \<le> ([2, 1, 4, 4, 8, 8, 4] ! i :: u32) \<and> ([2, 1, 4, 4, 8, 8, 4] ! i :: u32) \<le> 8"
    if "i < 7" for i
  proof -
    from that have "i \<in> {0, 1, 2, 3, 4, 5, 6}" by auto
    then show ?thesis by auto
  qed
  then show ?thesis using n by simp
qed

theorem C7_orientation_counts_witness:
  "wf_avail zero_avail \<and>
   1 \<le> po_n (calc_pieces_available zero_avail ! 4) \<and>
   po_n (calc_pieces_available zero_avail ! 4) \<le> 8 \<and>
   po_n (calc_pieces_available zero_avail ! 1) = 1 \<and>
   po_n (calc_pieces_available zero_avail ! 0) = 2"
  using C7_orientation_counts [OF zero_avail_wf] zero_avail_wf by simp

text \<open>
  C8.  For a piece of height \<open>h\<close> (at most 8 rows fit a 32-bit mask; here \<open>h \<le> 7\<close>),
  the mirror loop gives row \<open>r\<close> the content of row \<open>h - 1 - r\<close> for \<open>r\<close> below
  \<open>h div 2\<close> and for the rows \<open>h - 1 - r\<close> of those \<open>r\<close>, and leaves every other row as
  it is; applying it twice gives the mask back; so the body of the loop over \<open>j\<close>
  rotates the mask it started with, and swaps width and height.
\<close>

theorem C8_mirror_swaps_rows:
  assumes "unat h \<le> 8"
  shows "(\<forall>r<8. row r (mirror h m) =
            (if r < unat h div 2 \<or> (unat h - 1 - unat h div 2 < r \<and> r < unat h)
             then row (unat h - 1 - r) m else row r m)) \<and>
         mirror h (mirror h m) = m \<and>
         snd (snd (j_body (a, idx, m, w, h))) = (rotate m w h, h, w)"
  using mirror_rows [OF assms] mirror_involution [OF assms] j_body_rotates_unmirrored [OF assms]
  by simp

theorem C8_mirror_swaps_rows_witness:
  "unat (2 :: u32) \<le> 8 \<and>
   row 0 (mirror 2 23) = row 1 23 \<and> row 1 (mirror 2 23) = row 0 23 \<and>
   row 2 (mirror 2 23) = row 2 23 \<and>
   mirror 2 (mirror 2 23) = 23 \<and>
   snd (snd (j_body (zero_po, 0, 23, 3, 2))) = (rotate 23 3 2, 2, 3)"
proof -
  have h: "unat (2 :: u32) \<le> 8" by simp
  note t = C8_mirror_swaps_rows [OF h, of 23 zero_po 0 3]
  from t have r: "row r (mirror 2 23) =
      (if r < unat (2 :: u32) div 2 \<or> (unat (2 :: u32) - 1 - unat (2 :: u32) div 2 < r \<and>
          r < unat (2 :: u32))
       then row (unat (2 :: u32) - 1 - r) 23 else row r 23)" if "r < 8" for r
    using that by blast
  from r [of 0] r [of 1] r [of 2] t h show ?thesis by simp
qed

section \<open>Properties of the search\<close>

text \<open>
  C1.  Every solution reported during a call of \<^verbatim>\<open>recurse\<close> whose arguments satisfy the
  invariant has seven placement masks whose bitwise OR is \<open>0x0FFFFFFF\<close>.
\<close>

theorem C1_reported_covers_board:
  assumes "tiling iter state (pieces_available s) (solution s)"
    and "sol \<in> set (reported_since s (recurse iter state s))"
  shows "length sol = 7 \<and> fold (\<lambda>m acc. acc OR m) (map piece_mask sol) 0 = 0x0FFFFFFF"
proof -
  from assms obtain state' pool' where "tiling NUM_PIECES state' pool' sol"
    by (rule tiling_reported)
  from tiling_full [OF this] show ?thesis
    by (simp add: union_masks_def board_def)
qed

theorem C1_reported_covers_board_witness:
  "tiling 6 0x0FFFFFF0 (pieces_available example6) (solution example6) \<and>
   example_solution \<in> set (reported_since example6 (recurse 6 0x0FFFFFF0 example6)) \<and>
   length example_solution = 7 \<and>
   fold (\<lambda>m acc. acc OR m) (map piece_mask example_solution) 0 = 0x0FFFFFFF"
proof -
  have r: "example_solution \<in> set (reported_since example6 (recurse 6 0x0FFFFFF0 example6))"
    by (simp add: example6_reported)
  from C1_reported_covers_board [OF example6_tiling r] example6_tiling r
  show ?thesis by simp
qed

text \<open>
  C2.  In every solution reported during such a call, the placement masks of two
  distinct depths have no bit in common.
\<close>

theorem C2_reported_disjoint:
  assumes "tiling iter state (pieces_available s) (solution s)"
    and "sol \<in> set (reported_since s (recurse iter state s))"
  shows "\<forall>i<7. \<forall>j<7. i \<noteq> j \<longrightarrow> piece_mask (sol ! i) AND piece_mask (sol ! j) = 0"
proof -
  from assms obtain state' pool' where "tiling NUM_PIECES state' pool' sol"
    by (rule tiling_reported)
  from tiling_full [OF this] have "length sol = 7" "disjoint_masks (map piece_mask sol)"
    by simp_all
  then show ?thesis
    using disjoint_masks_nth [of "map piece_mask sol"] by simp
qed

theorem C2_reported_disjoint_witness:
  "tiling 6 0x0FFFFFF0 (pieces_available example6) (solution example6) \<and>
   example_solution \<in> set (reported_since example6 (recurse 6 0x0FFFFFF0 example6)) \<and>
   piece_mask (example_solution ! 5) AND piece_mask (example_solution ! 6) = 0 \<and>
   piece_mask (example_solution ! 6) AND piece_mask (example_solution ! 0) = 0"
proof -
  have r: "example_solution \<in> set (reported_since example6 (recurse 6 0x0FFFFFF0 example6))"
    by (simp add: example6_reported)
  from C2_reported_disjoint [OF example6_tiling r] example6_tiling r
  show ?thesis by simp
qed

text \<open>
  C5.  When a call of \<^verbatim>\<open>recurse\<close> returns, the array \<^verbatim>\<open>pieces_available\<close> is what it
  was on entry, and so it is after one pass of the loop over the slots, for every slot
  \<open>i\<close>: after the subtree of that choice and the restoring assignment.  (A process that
  has exited returns from nothing.)
\<close>

theorem C5_pool_restored:
  "(exited (recurse iter state s) = None \<longrightarrow>
      pieces_available (recurse iter state s) = pieces_available s) \<and>
   (iter \<le> i \<and> i < NUM_PIECES \<and>
    exited (slot_body (recurse (iter + 1)) iter state i s) = None \<longrightarrow>
      pieces_available (slot_body (recurse (iter + 1)) iter state i s) = pieces_available s)"
proof -
  let ?I = "\<lambda>(iter :: u32) (state :: u32) (pool :: piece_orientations list)
              (sol :: placement list). True"
  have r: "extends (call_inv ?I) (unat iter') s' (recurse iter' state' s')" for iter' state' s'
    by (rule recurse_extends [where I = ?I]) simp_all
  have "extends (call_inv ?I) (unat iter) s (slot_body (recurse (iter + 1)) iter state i s)"
    if "iter \<le> i" "i < NUM_PIECES"
  proof (rule slot_body_extends [where I = ?I and pool = "pieces_available s"])
    from that have "iter < NUM_PIECES" by auto
    then have "unat (iter + 1) = Suc (unat iter)" by (rule unat_plus1)
    then show "extends (call_inv ?I) (Suc (unat iter)) u (recurse (iter + 1) st u)" for st u
      using r [of "iter + 1" u st] by simp
  qed simp_all
  then show ?thesis using r [of iter s state] by (auto simp: extends_def)
qed

theorem C5_pool_restored_witness:
  "exited (recurse 6 0x0FFFFFF0 example6) = None \<and>
   pieces_available (recurse 6 0x0FFFFFF0 example6) = pieces_available example6 \<and>
   (6 :: u32) \<le> 6 \<and> (6 :: u32) < NUM_PIECES \<and>
   exited (slot_body (recurse (6 + 1)) 6 0x0FFFFFF0 6 example6) = None \<and>
   pieces_available (slot_body (recurse (6 + 1)) 6 0x0FFFFFF0 6 example6) =
     pieces_available example6"
proof -
  have 1: "exited (recurse 6 0x0FFFFFF0 example6) = None"
    unfolding example6_run by (simp add: example6_def)
  have 2: "exited (slot_body (recurse (6 + 1)) 6 0x0FFFFFF0 6 example6) = None"
    by (simp add: example6_def example_solution_def table_zero search_evals)
  have 3: "(6 :: u32) \<le> 6 \<and> (6 :: u32) < NUM_PIECES" by (simp add: NUM_PIECES_def)
  from C5_pool_restored [of 6 "0x0FFFFFF0" example6 6] 1 2 3 show ?thesis by simp
qed

text \<open>
  C6.  During such a call, every placement mask of every reported solution has its bits
  among the bits 0 to 27, so that each bit \<open>n\<close> of it is a cell \<open>(n mod 4, n div 4)\<close>
  with \<open>n mod 4 < 4\<close> and \<open>n div 4 < 7\<close>; and the argument \<^verbatim>\<open>state\<close> of every call of
  \<^verbatim>\<open>recurse\<close> has its bits among the bits 0 to 27.
\<close>

theorem C6_masks_on_board:
  assumes "tiling iter state (pieces_available s) (solution s)"
  shows "(\<forall>sol \<in> set (reported_since s (recurse iter state s)). \<forall>p \<in> set sol.
            piece_mask p AND 0xF0000000 = 0 \<and>
            (\<forall>n. bit (piece_mask p) n \<longrightarrow> n < 28 \<and> n mod 4 < 4 \<and> n div 4 < 7)) \<and>
         (\<forall>c \<in> set (calls_since s (recurse iter state s)).
            c_state c AND 0xF0000000 = 0 \<and> (\<forall>n. bit (c_state c) n \<longrightarrow> n < 28))"
proof (intro conjI ballI)
  fix sol p
  assume sol: "sol \<in> set (reported_since s (recurse iter state s))" and p: "p \<in> set sol"
  from assms sol obtain state' pool' where "tiling NUM_PIECES state' pool' sol"
    by (rule tiling_reported)
  from tiling_full(2) [OF this] p have "on_board (piece_mask p)"
    by (simp add: list_all_iff good_mask_def)
  then show "piece_mask p AND 0xF0000000 = 0"
    and "\<forall>n. bit (piece_mask p) n \<longrightarrow> n < 28 \<and> n mod 4 < 4 \<and> n div 4 < 7"
    by (auto simp: on_board_def [symmetric] on_board_iff)
next
  fix c
  assume c: "c \<in> set (calls_since s (recurse iter state s))"
  have t: "tiling (c_iter c) (c_state c) (c_pieces_available c) (c_solution c)"
    using extends_calls_since [OF recurse_tiling [OF assms] c] .
  then have "list_all on_board (masks (c_solution c) (unat (c_iter c)))"
    by (simp add: tiling_def list_all_iff good_mask_def)
  from union_masks_on_board [OF this] t have "on_board (c_state c)"
    by (simp add: tiling_def)
  then show "c_state c AND 0xF0000000 = 0" and "\<forall>n. bit (c_state c) n \<longrightarrow> n < 28"
    by (auto simp: on_board_def [symmetric] on_board_iff)
qed

theorem C6_masks_on_board_witness:
  "tiling 6 0x0FFFFFF0 (pieces_available example6) (solution example6) \<and>
   example_solution \<in> set (reported_since example6 (recurse 6 0x0FFFFFF0 example6)) \<and>
   example_solution ! 6 \<in> set example_solution \<and>
   piece_mask (example_solution ! 6) AND 0xF0000000 = 0 \<and>
   last (calls (recurse 6 0x0FFFFFF0 example6))
     \<in> set (calls_since example6 (recurse 6 0x0FFFFFF0 example6)) \<and>
   c_state (last (calls (recurse 6 0x0FFFFFF0 example6))) AND 0xF0000000 = 0"
proof -
  have r: "example_solution \<in> set (reported_since example6 (recurse 6 0x0FFFFFF0 example6))"
    by (simp add: example6_reported)
  have p: "example_solution ! 6 \<in> set example_solution"
    by (simp add: example_solution_def)
  have c: "last (calls (recurse 6 0x0FFFFFF0 example6))
             \<in> set (calls_since example6 (recurse 6 0x0FFFFFF0 example6))"
    unfolding example6_run by (simp add: calls_since_def example6_def)
  from C6_masks_on_board [OF example6_tiling] example6_tiling r p c
  show ?thesis by blast
qed

text \<open>
  C9 (as amended).  The run of \<^verbatim>\<open>main\<close> reports no solution, whatever the first
  contents of its two arrays: \<^verbatim>\<open>found_solution\<close> is never called.  Every piece but the
  last covers an even number of the cells \<open>(x, y)\<close> with \<open>x + y\<close> even, the last piece
  an odd number, the board 14 of them; and along every branch of the search the last
  piece is placed exactly once, since only slot 6 ever holds it.
\<close>

theorem C9_main_reports_no_solution:
  assumes "wf_avail avail" and "length solution0 = 7"
  shows "reported (main avail solution0) = []"
  using assms by (rule main_reports_nothing)

theorem C9_main_reports_no_solution_witness:
  "wf_avail zero_avail \<and> length zero_solution = 7 \<and>
   reported (main zero_avail zero_solution) = []"
proof -
  have l: "length zero_solution = 7" by (simp add: zero_solution_def)
  from C9_main_reports_no_solution [OF zero_avail_wf l] zero_avail_wf l
  show ?thesis by simp
qed

text \<open>C9 as stated fails: the run from zeroed arrays reports no solution.\<close>

theorem C9_counterexample:
  "\<not> 1 \<le> length (reported (main zero_avail zero_solution))"
proof -
  have "length zero_solution = 7" by (simp add: zero_solution_def)
  with zero_avail_wf have "reported (main zero_avail zero_solution) = []"
    by (rule main_reports_nothing)
  then show ?thesis by simp
qed

text \<open>
  C10.  \<^verbatim>\<open>main\<close> ends with exit status 0 unless a call of \<^verbatim>\<open>found_solution\<close> got an
  overlapping solution; for well-formed arrays it ends with status 0, and a call of
  \<^verbatim>\<open>recurse\<close> whose arguments satisfy the invariant of the search never exits.
  \<^verbatim>\<open>found_solution\<close> exits, with status 1 and after the diagnostic on the standard
  error stream, exactly when the solution is overlapping, that is when two of the seven
  placements cover the same cell of the board.
\<close>

theorem C10_exit_status:
  "(exited (main avail solution0) = Some 0 \<or> list_ex bad_call (calls (main avail solution0))) \<and>
   (wf_avail avail \<and> length solution0 = 7 \<longrightarrow> exited (main avail solution0) = Some 0) \<and>
   (tiling iter state (pieces_available s) (solution s) \<and> exited s = None \<longrightarrow>
      exited (recurse iter state s) = None) \<and>
   (exited s = None \<longrightarrow>
      exited (found_solution s) =
        (if overlapping (solution s) NUM_PIECES then Some 1 else None) \<and>
      stderr (found_solution s) =
        (if overlapping (solution s) NUM_PIECES then stderr s @ diagnostic else stderr s)) \<and>
   (overlapping sol NUM_PIECES \<longleftrightarrow>
      (\<exists>i<7. \<exists>j<7. i \<noteq> j \<and>
         (\<exists>n<28. bit (piece_mask (sol ! i)) n \<and> bit (piece_mask (sol ! j)) n)))"
proof -
  let ?s0 = "\<lparr>pieces_available = calc_pieces_available avail, solution = solution0,
              calls = [], stdout = [], stderr = [], exited = None\<rparr>"
  let ?I = "\<lambda>(iter :: u32) (state :: u32) (pool :: piece_orientations list)
              (sol :: placement list). True"
  have "extends (call_inv ?I) (unat (0 :: u32)) ?s0 (recurse 0 0 ?s0)"
    by (rule recurse_extends [where I = ?I]) simp_all
  then have "exited (recurse 0 0 ?s0) = None \<or> list_ex bad_call (calls (recurse 0 0 ?s0))"
    by (auto simp: extends_def)
  then have "exited (main avail solution0) = Some 0 \<or>
             list_ex bad_call (calls (main avail solution0))"
    by (auto simp: main_def Let_def)
  then show ?thesis
    using main_exit_code [of avail solution0] recurse_no_exit [of iter state s]
      found_solution_status [of s] overlapping_iff [of sol]
    by simp
qed

theorem C10_exit_status_witness:
  "wf_avail zero_avail \<and> length zero_solution = 7 \<and>
   exited (main zero_avail zero_solution) = Some 0 \<and>
   tiling 6 0x0FFFFFF0 (pieces_available example6) (solution example6) \<and>
   exited example6 = None \<and> exited (recurse 6 0x0FFFFFF0 example6) = None \<and>
   exited example_overlap = None \<and> overlapping (solution example_overlap) NUM_PIECES \<and>
   exited (found_solution example_overlap) = Some 1 \<and>
   stderr (found_solution example_overlap) = diagnostic"
proof -
  have l: "length zero_solution = 7" by (simp add: zero_solution_def)
  have e: "exited example6 = None" "exited example_overlap = None"
    "stderr example_overlap = []"
    by (simp_all add: example6_def example_overlap_def)
  note t = C10_exit_status [of zero_avail zero_solution 6 "0x0FFFFFF0" example6
      "solution example_overlap"]
  note u = C10_exit_status [of zero_avail zero_solution 6 "0x0FFFFFF0" example_overlap
      "solution example_overlap"]
  have "(5 :: nat) < 7 \<and> (6 :: nat) < 7 \<and> (5 :: nat) \<noteq> 6 \<and> (0 :: nat) < 28 \<and>
        bit (piece_mask (solution example_overlap ! 5)) 0 \<and>
        bit (piece_mask (solution example_overlap ! 6)) 0"
    by (simp add: example_overlap_def)
  then have o: "overlapping (solution example_overlap) NUM_PIECES"
    using t by blast
  from t u o e l zero_avail_wf example6_tiling show ?thesis by simp
qed

text \<open>
  C4.  The orientation sets offered at a call are not always the pieces not yet placed
  on its branch.  Line 246 overwrites the chosen slot with a copy of slot 0, not of slot
  \<open>iter\<close>, the first of those still to place.  In the run of \<^verbatim>\<open>main\<close>, whatever the first
  contents of its arrays, the branch that places piece 0 at depth 0 (mask \<open>0xF\<close>) and,
  from slot 2, piece 2 at depth 1 (mask \<open>0x630\<close>) makes a call at depth 2 that offers
  piece 0 again, with the pieces 3 to 6, and does not offer piece 1, which is not placed;
  below it a call at depth 3 is made with piece 0 placed a second time (mask \<open>0xF000\<close>).
\<close>

theorem C4_offered_slots:
  assumes "wf_avail avail" and "length solution0 = 7"
  shows "(\<exists>c \<in> set (calls (main avail solution0)).
            c_iter c = 2 \<and> masks (c_solution c) 2 = [0xF, 0x630] \<and>
            offered c = [calc_pieces_available avail ! 0, calc_pieces_available avail ! 3,
                         calc_pieces_available avail ! 4, calc_pieces_available avail ! 5,
                         calc_pieces_available avail ! 6] \<and>
            calc_pieces_available avail ! 1 \<notin> set (offered c)) \<and>
         (\<exists>c \<in> set (calls (main avail solution0)).
            c_iter c = 3 \<and> masks (c_solution c) 3 = [0xF, 0x630, 0xF000]) \<and>
         0xF \<in> set (placements (calc_pieces_available avail ! 0)) \<and>
         0xF000 \<in> set (placements (calc_pieces_available avail ! 0)) \<and>
         0xF \<notin> set (placements (calc_pieces_available avail ! 1)) \<and>
         0x630 \<notin> set (placements (calc_pieces_available avail ! 1))"
proof -
  let ?T = "calc_pieces_available avail"
  have len: "length ?T = 7"
    using arg_cong [OF table_counts [OF assms(1)], of length] by simp
  obtain c where c: "c \<in> set (calls (main avail solution0))" "c_iter c = 2"
    "masks (c_solution c) 2 = [0xF, 0x630]" "c_pieces_available c = ?T[2 := ?T ! 0]"
    using reach_depth2 [OF assms] by blast
  have o: "offered c = [?T ! 0, ?T ! 3, ?T ! 4, ?T ! 5, ?T ! 6]"
    using c(2,4) table_drop [OF len] by (simp add: offered_def)
  have "?T ! 1 \<notin> set (offered c)"
    unfolding o by (rule table_slot1 [OF assms(1)])
  with c o have "\<exists>c \<in> set (calls (main avail solution0)).
      c_iter c = 2 \<and> masks (c_solution c) 2 = [0xF, 0x630] \<and>
      offered c = [?T ! 0, ?T ! 3, ?T ! 4, ?T ! 5, ?T ! 6] \<and> ?T ! 1 \<notin> set (offered c)"
    by blast
  then show ?thesis
    using reach_depth3 [OF assms] table_placements [OF assms(1)] by simp
qed

text \<open>The same at the zero arrays.\<close>

theorem C4_offered_slots_witness:
  "wf_avail zero_avail \<and> length zero_solution = 7 \<and>
   (\<exists>c \<in> set (calls (main zero_avail zero_solution)).
      c_iter c = 2 \<and> masks (c_solution c) 2 = [0xF, 0x630] \<and>
      offered c = [calc_pieces_available zero_avail ! 0, calc_pieces_available zero_avail ! 3,
                   calc_pieces_available zero_avail ! 4, calc_pieces_available zero_avail ! 5,
                   calc_pieces_available zero_avail ! 6] \<and>
      calc_pieces_available zero_avail ! 1 \<notin> set (offered c)) \<and>
   (\<exists>c \<in> set (calls (main zero_avail zero_solution)).
      c_iter c = 3 \<and> masks (c_solution c) 3 = [0xF, 0x630, 0xF000])"
proof -
  have l: "length zero_solution = 7" by (simp add: zero_solution_def)
  from C4_offered_slots [OF zero_avail_wf l] zero_avail_wf l
  show ?thesis by blast
qed



end
